theory Spec2Isabelle
  imports Complex_Main
begin

section \<open>JavaScript numbers and arrays\<close>

text \<open>
  The service computes with JavaScript numbers. A number is modelled as a finite real
  or one of the three special values of IEEE arithmetic. Finite arithmetic is exact:
  rounding to 64 (or, inside a Float32Array, 32) bits and the sign of zero are not
  modelled. Every operation below follows the ECMAScript rule for the special values.
\<close>

datatype jsnum = Fin real | PosInf | NegInf | NaN

fun js_add :: "jsnum \<Rightarrow> jsnum \<Rightarrow> jsnum" where
  "js_add (Fin a) (Fin b) = Fin (a + b)"
| "js_add NaN _ = NaN"
| "js_add _ NaN = NaN"
| "js_add PosInf NegInf = NaN"
| "js_add NegInf PosInf = NaN"
| "js_add PosInf _ = PosInf"
| "js_add _ PosInf = PosInf"
| "js_add NegInf _ = NegInf"
| "js_add _ NegInf = NegInf"

fun js_neg :: "jsnum \<Rightarrow> jsnum" where
  "js_neg (Fin a) = Fin (- a)"
| "js_neg PosInf = NegInf"
| "js_neg NegInf = PosInf"
| "js_neg NaN = NaN"

definition js_sub :: "jsnum \<Rightarrow> jsnum \<Rightarrow> jsnum" where
  "js_sub a b = js_add a (js_neg b)"

definition signed_inf :: "bool \<Rightarrow> jsnum" where
  "signed_inf positive = (if positive then PosInf else NegInf)"

fun js_mul :: "jsnum \<Rightarrow> jsnum \<Rightarrow> jsnum" where
  "js_mul (Fin a) (Fin b) = Fin (a * b)"
| "js_mul NaN _ = NaN"
| "js_mul _ NaN = NaN"
| "js_mul (Fin a) PosInf = (if a = 0 then NaN else signed_inf (0 < a))"
| "js_mul (Fin a) NegInf = (if a = 0 then NaN else signed_inf (a < 0))"
| "js_mul PosInf (Fin b) = (if b = 0 then NaN else signed_inf (0 < b))"
| "js_mul NegInf (Fin b) = (if b = 0 then NaN else signed_inf (b < 0))"
| "js_mul PosInf PosInf = PosInf"
| "js_mul PosInf NegInf = NegInf"
| "js_mul NegInf PosInf = NegInf"
| "js_mul NegInf NegInf = PosInf"

text \<open>Division: a finite non-zero number over zero is an infinity, zero over zero is NaN.\<close>

fun js_div :: "jsnum \<Rightarrow> jsnum \<Rightarrow> jsnum" where
  "js_div (Fin a) (Fin b) =
     (if b = 0 then (if a = 0 then NaN else signed_inf (0 < a)) else Fin (a / b))"
| "js_div NaN _ = NaN"
| "js_div _ NaN = NaN"
| "js_div (Fin a) _ = Fin 0"
| "js_div PosInf (Fin b) = signed_inf (0 \<le> b)"
| "js_div NegInf (Fin b) = signed_inf (b < 0)"
| "js_div _ _ = NaN"

fun js_sqrt :: "jsnum \<Rightarrow> jsnum" where
  "js_sqrt (Fin a) = (if a < 0 then NaN else Fin (sqrt a))"
| "js_sqrt PosInf = PosInf"
| "js_sqrt NegInf = NaN"
| "js_sqrt NaN = NaN"

text \<open>The comparison \<open>a > b\<close>: false as soon as one side is NaN.\<close>

fun js_gt :: "jsnum \<Rightarrow> jsnum \<Rightarrow> bool" where
  "js_gt (Fin a) (Fin b) = (b < a)"
| "js_gt NaN _ = False"
| "js_gt _ NaN = False"
| "js_gt NegInf _ = False"
| "js_gt _ NegInf = True"
| "js_gt PosInf (Fin b) = True"
| "js_gt _ PosInf = False"

text \<open>
  An array element is \<open>Some v\<close>, or \<open>None\<close> for \<open>undefined\<close>. Reading an index outside
  the array gives \<open>undefined\<close>, and \<open>undefined\<close> used as a number is NaN.
\<close>

definition js_get :: "'a list \<Rightarrow> int \<Rightarrow> 'a option" where
  "js_get xs i = (if 0 \<le> i \<and> i < int (length xs) then Some (xs ! nat i) else None)"

fun toNumber :: "jsnum option \<Rightarrow> jsnum" where
  "toNumber None = NaN"
| "toNumber (Some v) = v"

definition num_at :: "jsnum option list \<Rightarrow> int \<Rightarrow> jsnum" where
  "num_at xs i = (case js_get xs i of None \<Rightarrow> NaN | Some e \<Rightarrow> toNumber e)"

text \<open>The remainder operator \<open>%\<close> on integers truncates: the result has the sign of the dividend.\<close>

definition js_rem :: "int \<Rightarrow> int \<Rightarrow> int" where
  "js_rem a b = sgn a * (\<bar>a\<bar> mod \<bar>b\<bar>)"

text \<open>\<open>xs.slice(s, e)\<close> for \<open>0 \<le> s\<close>, the only way the service calls it.\<close>

definition slice :: "'a list \<Rightarrow> int \<Rightarrow> int \<Rightarrow> 'a list" where
  "slice xs s e = take (nat (e - s)) (drop (nat s) xs)"

section \<open>The service's constants\<close>

definition MAJOR_PROFILE :: "jsnum list" where
  "MAJOR_PROFILE = map Fin
     [6.35, 2.23, 3.48, 2.33, 4.38, 4.09, 2.52, 5.19, 2.39, 3.66, 2.29, 2.88]"

definition MINOR_PROFILE :: "jsnum list" where
  "MINOR_PROFILE = map Fin
     [6.33, 2.68, 3.52, 5.38, 2.60, 3.53, 2.54, 4.75, 3.98, 2.69, 3.34, 3.17]"

definition KEYS :: "string list" where
  "KEYS = [''C'', ''C#'', ''D'', ''D#'', ''E'', ''F'', ''F#'', ''G'', ''G#'', ''A'', ''A#'', ''B'']"

section \<open>rotate and correlate\<close>

text \<open>
  \<open>rotate(arr, n)\<close> fills a new array of the same length with
  \<open>arr[(i - n + len) % len]\<close>. The rotation amount is an integer, as at both call sites.
\<close>

definition rotate_js :: "'a list \<Rightarrow> int \<Rightarrow> 'a option list" where
  "rotate_js arr n =
     (let len = int (length arr)
      in map (\<lambda>i. js_get arr (js_rem (int i - n + len) len)) [0..<length arr])"

text \<open>\<open>xs.reduce((a, b) => a + b, 0)\<close>\<close>

definition reduce_sum :: "jsnum option list \<Rightarrow> jsnum" where
  "reduce_sum xs = foldl (\<lambda>a b. js_add a (toNumber b)) (Fin 0) xs"

text \<open>One pass of the loop of \<open>correlate\<close> over the state \<open>(sumXx, sumYy, sumXy)\<close>.\<close>

definition corr_step ::
  "jsnum option list \<Rightarrow> jsnum option list \<Rightarrow> jsnum \<Rightarrow> jsnum \<Rightarrow>
   jsnum \<times> jsnum \<times> jsnum \<Rightarrow> nat \<Rightarrow> jsnum \<times> jsnum \<times> jsnum" where
  "corr_step chroma profile meanX meanY st i =
     (case st of (sumXx, sumYy, sumXy) \<Rightarrow>
        (let x = js_sub (num_at chroma (int i)) meanX;
             y = js_sub (num_at profile (int i)) meanY
         in (js_add sumXx (js_mul x x), js_add sumYy (js_mul y y), js_add sumXy (js_mul x y))))"

definition corr_sums :: "jsnum option list \<Rightarrow> jsnum option list \<Rightarrow> jsnum \<times> jsnum \<times> jsnum" where
  "corr_sums chroma profile =
     (let meanX = js_div (reduce_sum chroma) (Fin 12);
          meanY = js_div (reduce_sum profile) (Fin 12)
      in foldl (corr_step chroma profile meanX meanY) (Fin 0, Fin 0, Fin 0) [0..<12])"

definition correlate :: "jsnum option list \<Rightarrow> jsnum option list \<Rightarrow> jsnum" where
  "correlate chroma profile =
     (case corr_sums chroma profile of (sumXx, sumYy, sumXy) \<Rightarrow>
        js_div sumXy (js_sqrt (js_mul sumXx sumYy)))"

section \<open>Key selection\<close>

text \<open>
  One of the two candidate loops of \<open>detectKey\<close>: the indices still to visit, and the
  state \<open>(bestCorrelation, bestKey)\<close>.
\<close>

fun keyLoop ::
  "jsnum list \<Rightarrow> string \<Rightarrow> jsnum option list \<Rightarrow> nat list \<Rightarrow> jsnum \<times> string \<Rightarrow> jsnum \<times> string" where
  "keyLoop profile mode avgChroma [] st = st"
| "keyLoop profile mode avgChroma (i # is) (bestCorrelation, bestKey) =
     (let correlation = correlate avgChroma (rotate_js profile (int i))
      in if js_gt correlation bestCorrelation
         then keyLoop profile mode avgChroma is (correlation, KEYS ! i @ '' '' @ mode)
         else keyLoop profile mode avgChroma is (bestCorrelation, bestKey))"

text \<open>The end of \<open>detectKey\<close>, from \<open>bestCorrelation = -Infinity\<close> to the return.\<close>

definition selectKey :: "jsnum list \<Rightarrow> string" where
  "selectKey avgChroma =
     snd (keyLoop MINOR_PROFILE ''Minor'' (map Some avgChroma) [0..<12]
           (keyLoop MAJOR_PROFILE ''Major'' (map Some avgChroma) [0..<12] (NegInf, '''')))"

section \<open>Audio buffers and the analysis primitives\<close>

text \<open>
  An AudioBuffer: the samples of channel 0 and the sample rate, a positive number. Its
  \<open>length\<close> is the sample count and its \<open>duration\<close> is \<open>length / sampleRate\<close>.
\<close>

record audio_buffer =
  channelData :: "real list"
  sampleRate :: real

definition buf_length :: "audio_buffer \<Rightarrow> nat" where
  "buf_length b = length (channelData b)"

definition duration :: "audio_buffer \<Rightarrow> real" where
  "duration b = real (buf_length b) / sampleRate b"

text \<open>
  The feature library is external. \<open>Meyda.extract\<close> is a function of the library's
  global audio context and of the chunk; \<open>None\<close> stands for a thrown exception or a
  falsy result, which both skip the chunk. \<open>rawContext\<close> is \<open>Tone.getContext().rawContext\<close>.
\<close>

record environment =
  amplitudeSpectrum :: "nat option \<Rightarrow> real list \<Rightarrow> jsnum list option"
  chromaFeature :: "nat option \<Rightarrow> real list \<Rightarrow> jsnum option list option"
  rawContext :: nat

record meyda_globals =
  audioContext :: "nat option"

section \<open>detectTuningReference\<close>

text \<open>The peak search: \<open>for (k = 10; k < spectrum.length / 2; k++)\<close>.\<close>

function findPeak :: "jsnum list \<Rightarrow> nat \<Rightarrow> jsnum \<times> int \<Rightarrow> jsnum \<times> int" where
  "findPeak spectrum k (maxVal, maxBin) =
     (if real k < real (length spectrum) / 2
      then (if js_gt (spectrum ! k) maxVal
            then findPeak spectrum (Suc k) (spectrum ! k, int k)
            else findPeak spectrum (Suc k) (maxVal, maxBin))
      else (maxVal, maxBin))"
  by pat_completeness auto
termination
  by (relation "measure (\<lambda>(spectrum, k, st). length spectrum - k)") auto

declare findPeak.simps [simp del]

text \<open>The cents deviation of one spectrum, or \<open>None\<close> below the silence threshold.\<close>

definition chunkDeviation :: "real \<Rightarrow> jsnum list \<Rightarrow> real option" where
  "chunkDeviation binSize spectrum =
     (case findPeak spectrum 10 (Fin (- 1), - 1) of (maxVal, maxBin) \<Rightarrow>
        if js_gt maxVal (Fin 0.1)
        then (let freq = real_of_int maxBin * binSize;
                  midi = 69 + 12 * log 2 (freq / 440);
                  nearestMidi = round midi;
                  deviation = (midi - real_of_int nearestMidi) * 100
              in Some deviation)
        else None)"

text \<open>The chunk loop, over the state \<open>(totalCentsDeviation, validChunks)\<close>.\<close>

function tuningLoop ::
  "(real list \<Rightarrow> jsnum list option) \<Rightarrow> real list \<Rightarrow> real \<Rightarrow> nat \<Rightarrow> nat \<Rightarrow> real \<times> nat \<Rightarrow> real \<times> nat" where
  "tuningLoop extract samples binSize step i (totalCentsDeviation, validChunks) =
     (if i < 50
      then (let start = i * step
            in if start + 4096 > length samples then (totalCentsDeviation, validChunks)
               else (let chunk = slice samples (int start) (int start + 4096)
                     in tuningLoop extract samples binSize step (Suc i)
                          (case extract chunk of
                             None \<Rightarrow> (totalCentsDeviation, validChunks)
                           | Some spectrum \<Rightarrow>
                               (case chunkDeviation binSize spectrum of
                                  None \<Rightarrow> (totalCentsDeviation, validChunks)
                                | Some deviation \<Rightarrow>
                                    (totalCentsDeviation + deviation, Suc validChunks)))))
      else (totalCentsDeviation, validChunks))"
  by pat_completeness auto
termination
  by (relation "measure (\<lambda>(extract, samples, binSize, step, i, st). 50 - i)") auto

declare tuningLoop.simps [simp del]

definition tuningReference :: "(real list \<Rightarrow> jsnum list option) \<Rightarrow> audio_buffer \<Rightarrow> int" where
  "tuningReference extract buffer =
     (let samples = channelData buffer;
          binSize = sampleRate buffer / 4096;
          step = length samples div 50
      in case tuningLoop extract samples binSize step 0 (0, 0) of
           (totalCentsDeviation, validChunks) \<Rightarrow>
             if validChunks = 0 then 440
             else (let avgDeviation = totalCentsDeviation / real validChunks;
                       ref = 440 * 2 powr (avgDeviation / 1200)
                   in round ref))"

text \<open>The method: it sets the library's global context, then analyses.\<close>

definition detectTuningReference ::
  "environment \<Rightarrow> audio_buffer \<Rightarrow> meyda_globals \<Rightarrow> int \<times> meyda_globals" where
  "detectTuningReference env buffer g =
     (let g' = g\<lparr>audioContext := Some (rawContext env)\<rparr>
      in (tuningReference (amplitudeSpectrum env (audioContext g')) buffer, g'))"

section \<open>detectKey\<close>

text \<open>The frame loop, over the state \<open>(totalChroma, frames)\<close>.\<close>

function keyFrames ::
  "(real list \<Rightarrow> jsnum option list option) \<Rightarrow> real list \<Rightarrow> real \<Rightarrow> int \<Rightarrow>
   jsnum list \<times> nat \<Rightarrow> jsnum list \<times> nat" where
  "keyFrames extract samples endSample i (totalChroma, frames) =
     (if real_of_int i < endSample - 4096
      then (let chunk = slice samples i (i + 4096)
            in if length chunk < 4096 then (totalChroma, frames)
               else keyFrames extract samples endSample (i + 8192)
                      (case extract chunk of
                         None \<Rightarrow> (totalChroma, frames)
                       | Some chroma \<Rightarrow>
                           (map (\<lambda>k. js_add (totalChroma ! k) (num_at chroma (int k))) [0..<12],
                            Suc frames)))
      else (totalChroma, frames))"
  by pat_completeness auto
termination
  by (relation "measure (\<lambda>(extract, samples, endSample, i, st). nat \<lceil>endSample - 4096 - real_of_int i\<rceil>)")
     (auto simp: nat_less_iff ceiling_less_iff, linarith+)

declare keyFrames.simps [simp del]

text \<open>The first part of \<open>detectKey\<close>: the analysis window and the frame loop over it.\<close>

definition accumulateChroma ::
  "(real list \<Rightarrow> jsnum option list option) \<Rightarrow> audio_buffer \<Rightarrow> jsnum list \<times> nat" where
  "accumulateChroma extract buffer =
     (let samples = channelData buffer;
          durationToAnalyze = min 30 (duration buffer);
          startSample = \<lfloor>(duration buffer / 2 - durationToAnalyze / 2) * sampleRate buffer\<rfloor>;
          safeStart = max 0 startSample;
          endSample = min (real_of_int safeStart + durationToAnalyze * sampleRate buffer)
                          (real (buf_length buffer))
      in keyFrames extract samples endSample safeStart (replicate 12 (Fin 0), 0))"

text \<open>\<open>Array.from(totalChroma).map(val => val / frames)\<close>\<close>

definition averageChroma ::
  "(real list \<Rightarrow> jsnum option list option) \<Rightarrow> audio_buffer \<Rightarrow> jsnum list" where
  "averageChroma extract buffer =
     (case accumulateChroma extract buffer of (totalChroma, frames) \<Rightarrow>
        map (\<lambda>val. js_div val (Fin (real frames))) totalChroma)"

definition keyEstimate :: "(real list \<Rightarrow> jsnum option list option) \<Rightarrow> audio_buffer \<Rightarrow> string" where
  "keyEstimate extract buffer =
     (if snd (accumulateChroma extract buffer) = 0 then ''Unknown''
      else selectKey (averageChroma extract buffer))"

definition detectKey ::
  "environment \<Rightarrow> audio_buffer \<Rightarrow> meyda_globals \<Rightarrow> string \<times> meyda_globals" where
  "detectKey env buffer g =
     (let g' = g\<lparr>audioContext := Some (rawContext env)\<rparr>
      in (keyEstimate (chromaFeature env (audioContext g')) buffer, g'))"

section \<open>The candidates of the key selection, as a list\<close>

text \<open>
  The 24 candidates in the order the two loops visit them: index \<open>j < 12\<close> is the major
  key with tonic \<open>j\<close>, index \<open>12 + j\<close> the minor key with tonic \<open>j\<close>. \<open>bestOf\<close> is
  the scan that both loops perform, on any list of scored names.
\<close>

fun bestOf :: "(jsnum \<times> string) list \<Rightarrow> jsnum \<times> string \<Rightarrow> jsnum \<times> string" where
  "bestOf [] st = st"
| "bestOf ((c, k) # cs) (bestCorrelation, bestKey) =
     (if js_gt c bestCorrelation then bestOf cs (c, k) else bestOf cs (bestCorrelation, bestKey))"

definition candidateScore :: "jsnum list \<Rightarrow> nat \<Rightarrow> jsnum" where
  "candidateScore avgChroma j =
     (if j < 12 then correlate (map Some avgChroma) (rotate_js MAJOR_PROFILE (int j))
      else correlate (map Some avgChroma) (rotate_js MINOR_PROFILE (int (j - 12))))"

definition candidateName :: "nat \<Rightarrow> string" where
  "candidateName j = (if j < 12 then KEYS ! j @ '' Major'' else KEYS ! (j - 12) @ '' Minor'')"

definition candidates :: "jsnum list \<Rightarrow> (jsnum \<times> string) list" where
  "candidates avgChroma = map (\<lambda>j. (candidateScore avgChroma j, candidateName j)) [0..<24]"

section \<open>The tuning estimate, as the specification words it\<close>

text \<open>
  The cents deviation of a frequency from the nearest semitone of the A440 grid; the
  chunk starts that lie inside a buffer of \<open>n\<close> samples; and the deviations of the valid
  chunks of a buffer, in order: a chunk is valid when its spectrum was extracted and
  the peak magnitude found by the peak search is above 0.1.
\<close>

definition centsDeviation :: "real \<Rightarrow> real" where
  "centsDeviation freq =
     (let midi = 69 + 12 * log 2 (freq / 440) in (midi - real_of_int (round midi)) * 100)"

definition chunkStarts :: "nat \<Rightarrow> nat list" where
  "chunkStarts n = takeWhile (\<lambda>start. start + 4096 \<le> n) (map (\<lambda>i. i * (n div 50)) [0..<50])"

definition spectrumDeviations :: "real \<Rightarrow> jsnum list \<Rightarrow> real list" where
  "spectrumDeviations binSize spectrum =
     (case findPeak spectrum 10 (Fin (- 1), - 1) of (peakVal, peakBin) \<Rightarrow>
        if js_gt peakVal (Fin 0.1) then [centsDeviation (real_of_int peakBin * binSize)] else [])"

definition validChunkDeviations :: "(real list \<Rightarrow> jsnum list option) \<Rightarrow> audio_buffer \<Rightarrow> real list" where
  "validChunkDeviations extract buffer =
     concat (map (\<lambda>start.
        case extract (slice (channelData buffer) (int start) (int start + 4096)) of
          None \<Rightarrow> []
        | Some spectrum \<Rightarrow> spectrumDeviations (sampleRate buffer / 4096) spectrum)
       (chunkStarts (length (channelData buffer))))"

section \<open>The service object and the feature library as mutable state\<close>

text \<open>
  To settle what the methods write, arrays are objects in a store: an address holds an
  array, and a new array takes the next free address. The service object holds the
  addresses of its three field arrays. The feature library has a state of its own: its
  global audio context, and whatever else it keeps between calls; a call to
  \<open>Meyda.extract\<close> reads that state and may change it.
\<close>

datatype jsarray = Numbers "jsnum option list" | Strings "string list"

record store =
  cells :: "nat \<Rightarrow> jsarray option"
  nextFree :: nat

definition alloc :: "jsarray \<Rightarrow> store \<Rightarrow> nat \<times> store" where
  "alloc arr s =
     (nextFree s, s\<lparr>cells := (cells s)(nextFree s := Some arr), nextFree := Suc (nextFree s)\<rparr>)"

definition arrayLength :: "store \<Rightarrow> nat \<Rightarrow> nat" where
  "arrayLength s a =
     (case cells s a of
        Some (Numbers xs) \<Rightarrow> length xs
      | Some (Strings xs) \<Rightarrow> length xs
      | None \<Rightarrow> 0)"

text \<open>\<open>arr[i]\<close> on an array of numbers; \<open>None\<close> is \<open>undefined\<close>.\<close>

definition readNumber :: "store \<Rightarrow> nat \<Rightarrow> int \<Rightarrow> jsnum option" where
  "readNumber s a i =
     (case cells s a of
        Some (Numbers xs) \<Rightarrow> (case js_get xs i of Some e \<Rightarrow> e | None \<Rightarrow> None)
      | _ \<Rightarrow> None)"

text \<open>\<open>arr[i] = v\<close>; an index past the end extends the array.\<close>

definition writeNumber :: "store \<Rightarrow> nat \<Rightarrow> nat \<Rightarrow> jsnum option \<Rightarrow> store" where
  "writeNumber s a i v =
     (case cells s a of
        Some (Numbers xs) \<Rightarrow>
          s\<lparr>cells := (cells s)(a := Some (Numbers
               (if i < length xs then xs[i := v]
                else xs @ replicate (i - length xs) None @ [v])))\<rparr>
      | _ \<Rightarrow> s)"

text \<open>\<open>this.KEYS[i]\<close> inside a template literal, where \<open>undefined\<close> prints as such.\<close>

definition readKey :: "store \<Rightarrow> nat \<Rightarrow> nat \<Rightarrow> string" where
  "readKey s a i =
     (case cells s a of
        Some (Strings xs) \<Rightarrow> (if i < length xs then xs ! i else ''undefined'')
      | _ \<Rightarrow> ''undefined'')"

definition numbersAt :: "store \<Rightarrow> nat \<Rightarrow> jsnum option list" where
  "numbersAt s a = (case cells s a of Some (Numbers xs) \<Rightarrow> xs | _ \<Rightarrow> [])"

text \<open>
  \<open>rotate\<close> on the store: it takes the length, allocates \<open>new Array(len)\<close> and fills it
  index by index from the array it was given.
\<close>

fun rotateFill :: "nat \<Rightarrow> nat \<Rightarrow> int \<Rightarrow> nat \<Rightarrow> nat list \<Rightarrow> store \<Rightarrow> store" where
  "rotateFill arr rotated n len [] s = s"
| "rotateFill arr rotated n len (i # is) s =
     rotateFill arr rotated n len is
       (writeNumber s rotated i (readNumber s arr (js_rem (int i - n + int len) (int len))))"

definition rotate_st :: "nat \<Rightarrow> int \<Rightarrow> store \<Rightarrow> nat \<times> store" where
  "rotate_st arr n s =
     (let len = arrayLength s arr
      in case alloc (Numbers (replicate len None)) s of
           (rotated, s1) \<Rightarrow> (rotated, rotateFill arr rotated n len [0..<len] s1))"

text \<open>\<open>correlate\<close> only reads its two arrays.\<close>

definition correlate_st :: "nat \<Rightarrow> nat \<Rightarrow> store \<Rightarrow> jsnum" where
  "correlate_st chroma profile s = correlate (numbersAt s chroma) (numbersAt s profile)"

record service =
  majorProfile :: nat
  minorProfile :: nat
  keyNames :: nat

fun keyLoop_st ::
  "nat \<Rightarrow> nat \<Rightarrow> string \<Rightarrow> nat \<Rightarrow> nat list \<Rightarrow> jsnum \<times> string \<Rightarrow> store \<Rightarrow>
   (jsnum \<times> string) \<times> store" where
  "keyLoop_st profile keys mode avgChroma [] st s = (st, s)"
| "keyLoop_st profile keys mode avgChroma (i # is) (bestCorrelation, bestKey) s =
     (case rotate_st profile (int i) s of
        (rotated, s1) \<Rightarrow>
          (let correlation = correlate_st avgChroma rotated s1
           in if js_gt correlation bestCorrelation
              then keyLoop_st profile keys mode avgChroma is
                     (correlation, readKey s1 keys i @ '' '' @ mode) s1
              else keyLoop_st profile keys mode avgChroma is (bestCorrelation, bestKey) s1))"

definition selectKey_st :: "service \<Rightarrow> nat \<Rightarrow> store \<Rightarrow> string \<times> store" where
  "selectKey_st this avgChroma s =
     (case keyLoop_st (majorProfile this) (keyNames this) ''Major'' avgChroma [0..<12]
             (NegInf, '''') s of
        (st1, s1) \<Rightarrow>
          (case keyLoop_st (minorProfile this) (keyNames this) ''Minor'' avgChroma [0..<12] st1 s1 of
             (st2, s2) \<Rightarrow> (snd st2, s2)))"

text \<open>
  The library's state and its two features. A call returns the feature, \<open>None\<close> for a
  thrown exception or a falsy result, and the library's state after the call.
\<close>

record 'h meyda = meyda_globals +
  hidden :: 'h

record 'h library =
  spectrumCall :: "'h meyda \<Rightarrow> real list \<Rightarrow> jsnum list option \<times> 'h meyda"
  chromaCall :: "'h meyda \<Rightarrow> real list \<Rightarrow> jsnum option list option \<times> 'h meyda"
  toneContext :: nat

function tuningLoop_st ::
  "'h library \<Rightarrow> real list \<Rightarrow> real \<Rightarrow> nat \<Rightarrow> nat \<Rightarrow> real \<times> nat \<Rightarrow> 'h meyda \<Rightarrow>
   (real \<times> nat) \<times> 'h meyda" where
  "tuningLoop_st lib samples binSize step i (totalCentsDeviation, validChunks) m =
     (if i < 50
      then (let start = i * step
            in if start + 4096 > length samples then ((totalCentsDeviation, validChunks), m)
               else (let chunk = slice samples (int start) (int start + 4096)
                     in case spectrumCall lib m chunk of
                          (rawSpectrum, m1) \<Rightarrow>
                            tuningLoop_st lib samples binSize step (Suc i)
                              (case rawSpectrum of
                                 None \<Rightarrow> (totalCentsDeviation, validChunks)
                               | Some spectrum \<Rightarrow>
                                   (case chunkDeviation binSize spectrum of
                                      None \<Rightarrow> (totalCentsDeviation, validChunks)
                                    | Some deviation \<Rightarrow>
                                        (totalCentsDeviation + deviation, Suc validChunks)))
                              m1))
      else ((totalCentsDeviation, validChunks), m))"
  by pat_completeness auto
termination
  by (relation "measure (\<lambda>(lib, samples, binSize, step, i, st, m). 50 - i)") auto

declare tuningLoop_st.simps [simp del]

function keyFrames_st ::
  "'h library \<Rightarrow> real list \<Rightarrow> real \<Rightarrow> int \<Rightarrow> jsnum list \<times> nat \<Rightarrow> 'h meyda \<Rightarrow>
   (jsnum list \<times> nat) \<times> 'h meyda" where
  "keyFrames_st lib samples endSample i (totalChroma, frames) m =
     (if real_of_int i < endSample - 4096
      then (let chunk = slice samples i (i + 4096)
            in if length chunk < 4096 then ((totalChroma, frames), m)
               else (case chromaCall lib m chunk of
                       (features, m1) \<Rightarrow>
                         keyFrames_st lib samples endSample (i + 8192)
                           (case features of
                              None \<Rightarrow> (totalChroma, frames)
                            | Some chroma \<Rightarrow>
                                (map (\<lambda>k. js_add (totalChroma ! k) (num_at chroma (int k))) [0..<12],
                                 Suc frames))
                           m1))
      else ((totalChroma, frames), m))"
  by pat_completeness auto
termination
  by (relation "measure (\<lambda>(lib, samples, endSample, i, st, m). nat \<lceil>endSample - 4096 - real_of_int i\<rceil>)")
     (auto simp: nat_less_iff ceiling_less_iff, linarith+)

declare keyFrames_st.simps [simp del]

text \<open>The two methods, on the store and the library's state.\<close>

definition detectTuningReference_st ::
  "'h library \<Rightarrow> service \<Rightarrow> audio_buffer \<Rightarrow> store \<times> 'h meyda \<Rightarrow> int \<times> store \<times> 'h meyda" where
  "detectTuningReference_st lib this buffer w =
     (case w of (s, m) \<Rightarrow>
        (let samples = channelData buffer;
             binSize = sampleRate buffer / 4096;
             step = length samples div 50;
             m0 = m\<lparr>audioContext := Some (toneContext lib)\<rparr>
         in case tuningLoop_st lib samples binSize step 0 (0, 0) m0 of
              ((totalCentsDeviation, validChunks), m1) \<Rightarrow>
                (if validChunks = 0 then 440
                 else (let avgDeviation = totalCentsDeviation / real validChunks;
                           ref = 440 * 2 powr (avgDeviation / 1200)
                       in round ref),
                 s, m1)))"

definition detectKey_st ::
  "'h library \<Rightarrow> service \<Rightarrow> audio_buffer \<Rightarrow> store \<times> 'h meyda \<Rightarrow> string \<times> store \<times> 'h meyda" where
  "detectKey_st lib this buffer w =
     (case w of (s, m) \<Rightarrow>
        (let samples = channelData buffer;
             durationToAnalyze = min 30 (duration buffer);
             startSample = \<lfloor>(duration buffer / 2 - durationToAnalyze / 2) * sampleRate buffer\<rfloor>;
             safeStart = max 0 startSample;
             endSample = min (real_of_int safeStart + durationToAnalyze * sampleRate buffer)
                             (real (buf_length buffer));
             m0 = m\<lparr>audioContext := Some (toneContext lib)\<rparr>
         in case keyFrames_st lib samples endSample safeStart (replicate 12 (Fin 0), 0) m0 of
              ((totalChroma, frames), m1) \<Rightarrow>
                if frames = 0 then (''Unknown'', s, m1)
                else (case alloc (Numbers (map (\<lambda>val. Some (js_div val (Fin (real frames))))
                                              totalChroma)) s of
                        (avgChroma, s1) \<Rightarrow>
                          (case selectKey_st this avgChroma s1 of
                             (bestKey, s2) \<Rightarrow> (bestKey, s2, m1)))))"

text \<open>
  The state the class's field initialisers leave: the three fields hold the addresses
  of allocated arrays with the initial contents.
\<close>

definition serviceFields :: "service \<Rightarrow> store \<Rightarrow> bool" where
  "serviceFields this s \<longleftrightarrow>
     majorProfile this < nextFree s \<and> minorProfile this < nextFree s \<and>
     keyNames this < nextFree s \<and>
     cells s (majorProfile this) = Some (Numbers (map Some MAJOR_PROFILE)) \<and>
     cells s (minorProfile this) = Some (Numbers (map Some MINOR_PROFILE)) \<and>
     cells s (keyNames this) = Some (Strings KEYS)"

text \<open>
  What the specification assumes of the library: a call leaves the global audio context
  alone, and the feature it returns depends on the chunk and that context only.
\<close>

definition statelessPerCall :: "'h library \<Rightarrow> bool" where
  "statelessPerCall lib \<longleftrightarrow>
     (\<forall>m c. audioContext (snd (spectrumCall lib m c)) = audioContext m) \<and>
     (\<forall>m c. audioContext (snd (chromaCall lib m c)) = audioContext m) \<and>
     (\<forall>m m' c. audioContext m = audioContext m' \<longrightarrow>
         fst (spectrumCall lib m c) = fst (spectrumCall lib m' c)) \<and>
     (\<forall>m m' c. audioContext m = audioContext m' \<longrightarrow>
         fst (chromaCall lib m c) = fst (chromaCall lib m' c))"

text \<open>The library seen as the two functions of the first model, at a hidden state \<open>h\<close>.\<close>

definition environmentOf :: "'h library \<Rightarrow> 'h \<Rightarrow> environment" where
  "environmentOf lib h =
     \<lparr>amplitudeSpectrum = (\<lambda>ctx chunk. fst (spectrumCall lib \<lparr>audioContext = ctx, hidden = h\<rparr> chunk)),
      chromaFeature = (\<lambda>ctx chunk. fst (chromaCall lib \<lparr>audioContext = ctx, hidden = h\<rparr> chunk)),
      rawContext = toneContext lib\<rparr>"

text \<open>
  What a method may do to the store: allocate, and leave every array that was
  allocated before as it was.
\<close>

definition keepsAllocated :: "store \<Rightarrow> store \<Rightarrow> bool" where
  "keepsAllocated s s' \<longleftrightarrow>
     nextFree s \<le> nextFree s' \<and> (\<forall>a<nextFree s. cells s' a = cells s a)"

section \<open>Test fixtures\<close>

text \<open>An environment whose feature library reports silence for every chunk.\<close>

definition silentEnv :: environment where
  "silentEnv = \<lparr>amplitudeSpectrum = (\<lambda>ctx chunk. Some (replicate 2048 (Fin 0))),
                chromaFeature = (\<lambda>ctx chunk. Some (replicate 12 (Some (Fin 0)))),
                rawContext = 0\<rparr>"

text \<open>
  The amplitude spectrum of a 4096-sample chunk holding one loud partial in bin 1500
  (about 16150 Hz at 44100 Hz): 2048 bins, all zero but that one.
\<close>

definition highTone :: "jsnum list" where
  "highTone = replicate 1500 (Fin 0) @ [Fin 1] @ replicate 547 (Fin 0)"

text \<open>The major profile rotated by one: the chroma of an ideal C sharp major.\<close>

definition cSharpMajorChroma :: "jsnum list" where
  "cSharpMajorChroma = map Fin
     [2.88, 6.35, 2.23, 3.48, 2.33, 4.38, 4.09, 2.52, 5.19, 2.39, 3.66, 2.29]"

text \<open>
  A 2048-bin amplitude spectrum with one partial in bin 10 (about 108 Hz at 44100 Hz),
  and a feature library that reports it for every chunk.
\<close>

definition lowTone :: "jsnum list" where
  "lowTone = replicate 10 (Fin 0) @ [Fin 1] @ replicate 2037 (Fin 0)"

definition toneEnv :: environment where
  "toneEnv = \<lparr>amplitudeSpectrum = (\<lambda>ctx chunk. Some lowTone),
              chromaFeature = (\<lambda>ctx chunk. None),
              rawContext = 0\<rparr>"

text \<open>
  A feature library that counts its calls in its hidden state, throws while no audio
  context is set, and otherwise reports the major profile as chroma and a low partial
  as spectrum; a service whose fields are the first three arrays of the store; the
  library before its first call; a buffer of 8192 samples at 44100 Hz.
\<close>

definition countingLibrary :: "nat library" where
  "countingLibrary =
     \<lparr>spectrumCall = (\<lambda>m chunk.
         (case audioContext m of None \<Rightarrow> None | Some ctx \<Rightarrow> Some lowTone,
          m\<lparr>hidden := Suc (hidden m)\<rparr>)),
      chromaCall = (\<lambda>m chunk.
         (case audioContext m of None \<Rightarrow> None | Some ctx \<Rightarrow> Some (map Some MAJOR_PROFILE),
          m\<lparr>hidden := Suc (hidden m)\<rparr>)),
      toneContext = 0\<rparr>"

definition theService :: service where
  "theService = \<lparr>majorProfile = 0, minorProfile = 1, keyNames = 2\<rparr>"

definition freshStore :: store where
  "freshStore =
     \<lparr>cells = (\<lambda>a. None)(0 := Some (Numbers (map Some MAJOR_PROFILE)),
                          1 := Some (Numbers (map Some MINOR_PROFILE)),
                          2 := Some (Strings KEYS)),
      nextFree = 3\<rparr>"

definition idle :: "nat meyda" where
  "idle = \<lparr>audioContext = None, hidden = 0\<rparr>"

definition oneFrame :: audio_buffer where
  "oneFrame = \<lparr>channelData = replicate 8192 0, sampleRate = 44100\<rparr>"

text \<open>
  A feature library that throws on its first call and reports the major profile from
  then on: what it returns depends on its hidden state.
\<close>

definition warmingLibrary :: "nat library" where
  "warmingLibrary =
     \<lparr>spectrumCall = (\<lambda>m chunk.
         (if hidden m = 0 then None else Some lowTone, m\<lparr>hidden := Suc (hidden m)\<rparr>)),
      chromaCall = (\<lambda>m chunk.
         (if hidden m = 0 then None else Some (map Some MAJOR_PROFILE),
          m\<lparr>hidden := Suc (hidden m)\<rparr>)),
      toneContext = 0\<rparr>"

section \<open>Properties of rotate\<close>

lemma js_rem_nonneg: "0 \<le> a \<Longrightarrow> 0 < b \<Longrightarrow> js_rem a b = a mod b"
  by (cases "a = 0") (simp_all add: js_rem_def)

lemma length_rotate_js: "length (rotate_js arr n) = length arr"
  by (simp add: rotate_js_def Let_def)

lemma rotate_js_nth:
  assumes "i < length arr" "n \<le> int (length arr)"
  shows "rotate_js arr n ! i =
         Some (arr ! nat ((int i - n + int (length arr)) mod int (length arr)))"
proof -
  let ?len = "int (length arr)"
  let ?a = "int i - n + ?len"
  have pos: "0 < ?len" using assms by (cases arr) simp_all
  have a: "0 \<le> ?a" using assms by simp
  have r: "js_rem ?a ?len = ?a mod ?len" using a pos by (rule js_rem_nonneg)
  have "0 \<le> ?a mod ?len" "?a mod ?len < ?len" using pos by simp_all
  then have "js_get arr (js_rem ?a ?len) = Some (arr ! nat (?a mod ?len))"
    unfolding r js_get_def by simp
  then show ?thesis using assms by (simp add: rotate_js_def Let_def)
qed

lemma length_MAJOR_PROFILE: "length MAJOR_PROFILE = 12"
  by (simp add: MAJOR_PROFILE_def)

lemma length_MINOR_PROFILE: "length MINOR_PROFILE = 12"
  by (simp add: MINOR_PROFILE_def)




section \<open>Buffers that yield no chunk\<close>

lemma tuningLoop_short:
  "length samples < 4096 \<Longrightarrow> tuningLoop extract samples binSize step 0 st = st"
  by (cases st) (simp add: tuningLoop.simps)

lemma tuningReference_short:
  "length (channelData b) < 4096 \<Longrightarrow> tuningReference extract b = 440"
  by (simp add: tuningReference_def Let_def tuningLoop_short)

lemma keyFrames_stop:
  "\<not> real_of_int i < endSample - 4096 \<Longrightarrow> keyFrames extract samples endSample i st = st"
  by (cases st) (simp add: keyFrames.simps)

text \<open>The frame loop needs more than 4096 samples to run its body even once.\<close>

lemma accumulateChroma_at_most_one_frame:
  assumes "length (channelData b) \<le> 4096"
  shows "accumulateChroma extract b = (replicate 12 (Fin 0), 0)"
proof -
  define dta where "dta = min 30 (duration b)"
  define safeStart where "safeStart = max 0 \<lfloor>(duration b / 2 - dta / 2) * sampleRate b\<rfloor>"
  define endSample where
    "endSample = min (real_of_int safeStart + dta * sampleRate b) (real (buf_length b))"
  have "endSample \<le> real (buf_length b)" by (simp add: endSample_def)
  moreover have "real (buf_length b) \<le> 4096" using assms by (simp add: buf_length_def)
  moreover have "0 \<le> real_of_int safeStart" by (simp add: safeStart_def)
  ultimately have "\<not> real_of_int safeStart < endSample - 4096" by linarith
  then have "keyFrames extract (channelData b) endSample safeStart (replicate 12 (Fin 0), 0)
             = (replicate 12 (Fin 0), 0)"
    by (rule keyFrames_stop)
  then show ?thesis
    by (simp add: accumulateChroma_def Let_def dta_def safeStart_def endSample_def)
qed

lemma keyEstimate_at_most_one_frame:
  "length (channelData b) \<le> 4096 \<Longrightarrow> keyEstimate extract b = ''Unknown''"
  by (simp add: keyEstimate_def accumulateChroma_at_most_one_frame)

lemma keyEstimate_short:
  "length (channelData b) < 4096 \<Longrightarrow> keyEstimate extract b = ''Unknown''"
  by (simp add: keyEstimate_at_most_one_frame)

text \<open>When every chunk inside the buffer is skipped or discarded, the loop leaves its state alone.\<close>

lemma tuningLoop_all_discarded:
  assumes "\<And>start. start + 4096 \<le> length xs \<Longrightarrow>
             (case ex (slice xs (int start) (int start + 4096)) of
                None \<Rightarrow> True | Some s \<Rightarrow> chunkDeviation bs s = None)"
  shows "tuningLoop ex xs bs stp i st = st"
  using assms
proof (induction ex xs bs stp i st rule: tuningLoop.induct)
  case (1 ex xs bs stp i total valid)
  show ?case
  proof (cases "i < 50 \<and> \<not> i * stp + 4096 > length xs")
    case False
    then show ?thesis by (auto simp add: tuningLoop.simps)
  next
    case True
    then have inb: "i * stp + 4096 \<le> length xs" by simp
    let ?chunk = "slice xs (int (i * stp)) (int (i * stp) + 4096)"
    have same: "(case ex ?chunk of None \<Rightarrow> (total, valid)
                 | Some spectrum \<Rightarrow> (case chunkDeviation bs spectrum of
                      None \<Rightarrow> (total, valid)
                    | Some deviation \<Rightarrow> (total + deviation, Suc valid))) = (total, valid)"
      using "1.prems"[OF inb] by (auto split: option.splits)
    have lt: "i < 50" and nb: "\<not> length xs < i * stp + 4096" using True by auto
    have step: "tuningLoop ex xs bs stp i (total, valid)
          = tuningLoop ex xs bs stp (Suc i) (total, valid)"
      using True same by (subst tuningLoop.simps) (simp add: Let_def)
    have "tuningLoop ex xs bs stp (Suc i) (total, valid) = (total, valid)"
      using "1.IH"[OF lt refl nb refl "1.prems"] unfolding same by simp
    with step show ?thesis by simp
  qed
qed

lemma slice_replicate:
  "start + m \<le> n \<Longrightarrow> slice (replicate n x) (int start) (int start + int m) = replicate m x"
  by (simp add: slice_def)

text \<open>The peak value is the initial value or one of the bins the loop may visit.\<close>

lemma findPeak_fst_cases:
  "fst (findPeak s k (m, b)) = m \<or>
   (\<exists>j. k \<le> j \<and> 2 * j < length s \<and> fst (findPeak s k (m, b)) = s ! j)"
proof (induction s k "(m, b)" arbitrary: m b rule: findPeak.induct)
  case (1 spectrum k maxVal maxBin)
  show ?case
  proof (cases "real k < real (length spectrum) / 2")
    case False
    then show ?thesis by (simp add: findPeak.simps)
  next
    case inr: True
    then have k2: "2 * k < length spectrum" by simp
    show ?thesis
    proof (cases "js_gt (spectrum ! k) maxVal")
      case True
      have eq: "findPeak spectrum k (maxVal, maxBin) = findPeak spectrum (Suc k) (spectrum ! k, int k)"
        using inr True by (subst findPeak.simps) simp
      from "1.hyps"(1)[OF inr True] show ?thesis
        unfolding eq using k2 by (metis Suc_leD order_refl)
    next
      case False
      have eq: "findPeak spectrum k (maxVal, maxBin) = findPeak spectrum (Suc k) (maxVal, maxBin)"
        using inr False by (subst findPeak.simps) simp
      from "1.hyps"(2)[OF inr False] show ?thesis
        unfolding eq by (metis Suc_leD)
    qed
  qed
qed

lemma findPeak_below:
  assumes "\<not> js_gt m t" and "\<And>j. 2 * j < length s \<Longrightarrow> \<not> js_gt (s ! j) t"
  shows "\<not> js_gt (fst (findPeak s k (m, b))) t"
  using findPeak_fst_cases [of s k m b] assms by auto

lemma tuningReference_silent:
  assumes zero: "\<forall>x \<in> set (channelData b). x = 0"
    and quiet: "\<forall>s. extract (replicate 4096 0) = Some s \<longrightarrow>
                  \<not> js_gt (fst (findPeak s 10 (Fin (- 1), - 1))) (Fin 0.1)"
  shows "tuningReference extract b = 440"
proof -
  have rep: "channelData b = replicate (length (channelData b)) 0"
    using zero by (simp add: replicate_length_same)
  have "tuningLoop extract (channelData b) bs stp 0 (0, 0) = (0, 0)" for bs stp
  proof (rule tuningLoop_all_discarded)
    fix start assume inb: "start + 4096 \<le> length (channelData b)"
    have "slice (replicate (length (channelData b)) (0::real)) (int start) (int start + int 4096)
          = replicate 4096 0"
      using inb by (rule slice_replicate)
    then have chunk: "slice (channelData b) (int start) (int start + 4096) = replicate 4096 0"
      using rep by simp
    show "case extract (slice (channelData b) (int start) (int start + 4096)) of
            None \<Rightarrow> True | Some s \<Rightarrow> chunkDeviation bs s = None"
      unfolding chunk using quiet
      by (auto simp add: chunkDeviation_def split: option.splits prod.splits)
  qed
  then show ?thesis by (simp add: tuningReference_def Let_def)
qed

text \<open>
  Claim C3: a buffer whose channel 0 has fewer than 4096 samples makes
  detectTuningReference return 440 and detectKey return "Unknown"; both return a value,
  no exception leaves them. An all-zero buffer, where the peak magnitude of the
  spectrum of a silent chunk is not above the threshold 0.1, makes detectTuningReference
  return 440.
\<close>

theorem short_or_silent_buffer_defaults:
  "(length (channelData b) < 4096 \<longrightarrow>
      fst (detectTuningReference env b g) = 440 \<and> fst (detectKey env b g) = ''Unknown'') \<and>
   ((\<forall>x \<in> set (channelData b). x = 0) \<and>
    (\<forall>s. amplitudeSpectrum env (Some (rawContext env)) (replicate 4096 0) = Some s \<longrightarrow>
         \<not> js_gt (fst (findPeak s 10 (Fin (- 1), - 1))) (Fin 0.1)) \<longrightarrow>
      fst (detectTuningReference env b g) = 440)"
  by (simp add: detectTuningReference_def detectKey_def Let_def
      tuningReference_short keyEstimate_short tuningReference_silent)

theorem short_or_silent_buffer_defaults_witness:
  "length (channelData \<lparr>channelData = [0.5, - 0.25], sampleRate = 44100\<rparr>) < 4096 \<and>
   fst (detectTuningReference silentEnv \<lparr>channelData = [0.5, - 0.25], sampleRate = 44100\<rparr>
          \<lparr>audioContext = None\<rparr>) = 440 \<and>
   fst (detectKey silentEnv \<lparr>channelData = [0.5, - 0.25], sampleRate = 44100\<rparr>
          \<lparr>audioContext = None\<rparr>) = ''Unknown'' \<and>
   channelData \<lparr>channelData = replicate 8192 0, sampleRate = 44100\<rparr> = replicate 8192 0 \<and>
   fst (detectTuningReference silentEnv \<lparr>channelData = replicate 8192 0, sampleRate = 44100\<rparr>
          \<lparr>audioContext = None\<rparr>) = 440"
proof -
  have quiet: "\<not> js_gt (fst (findPeak (replicate 2048 (Fin 0)) 10 (Fin (- 1), - 1))) (Fin 0.1)"
    by (rule findPeak_below) simp_all
  show ?thesis
    using short_or_silent_buffer_defaults
            [of "\<lparr>channelData = [0.5, - 0.25], sampleRate = 44100\<rparr>" silentEnv
                "\<lparr>audioContext = None\<rparr>"]
          short_or_silent_buffer_defaults
            [of "\<lparr>channelData = replicate 8192 0, sampleRate = 44100\<rparr>" silentEnv
                "\<lparr>audioContext = None\<rparr>"]
          quiet
    by (simp add: silentEnv_def)
qed

section \<open>The frame loop of detectKey\<close>

text \<open>
  Claim C6 says that a frame ending exactly at the last sample of the window is
  analysed. The loop runs while \<open>i < endSample - 4096\<close>, so it is not: for a buffer of
  exactly 4096 samples the window is the whole buffer, the frame at 0 is a full frame
  ending at the window's last sample, and the loop body never runs.
\<close>

theorem frame_ending_at_window_end_is_skipped:
  "length (slice (replicate 4096 x) 0 (0 + 4096)) = 4096 \<and>
   keyFrames extract (replicate 4096 x) 4096 0 (replicate 12 (Fin 0), 0)
     = (replicate 12 (Fin 0), 0) \<and>
   fst (detectKey env \<lparr>channelData = replicate 4096 x, sampleRate = 44100\<rparr> g) = ''Unknown''"
proof (intro conjI)
  show "length (slice (replicate 4096 x) 0 (0 + 4096)) = 4096"
    by (simp add: slice_def)
  have "\<not> real_of_int 0 < 4096 - 4096" by simp
  then show "keyFrames extract (replicate 4096 x) 4096 0 (replicate 12 (Fin 0), 0)
             = (replicate 12 (Fin 0), 0)"
    by (rule keyFrames_stop)
  have "length (channelData \<lparr>channelData = replicate 4096 x, sampleRate = 44100\<rparr>) \<le> 4096"
    by simp
  then have "keyEstimate (chromaFeature env (Some (rawContext env)))
               \<lparr>channelData = replicate 4096 x, sampleRate = 44100\<rparr> = ''Unknown''"
    by (rule keyEstimate_at_most_one_frame)
  then show "fst (detectKey env \<lparr>channelData = replicate 4096 x, sampleRate = 44100\<rparr> g)
             = ''Unknown''"
    by (simp add: detectKey_def Let_def)
qed

section \<open>The peak search of detectTuningReference\<close>

lemma findPeak_no_greater:
  "(\<And>j. k \<le> j \<Longrightarrow> 2 * j < length s \<Longrightarrow> \<not> js_gt (s ! j) m) \<Longrightarrow>
   findPeak s k (m, b) = (m, b)"
proof (induction s k "(m, b)" rule: findPeak.induct)
  case (1 spectrum k)
  show ?case
  proof (cases "real k < real (length spectrum) / 2")
    case False
    then show ?thesis by (simp add: findPeak.simps)
  next
    case inr: True
    then have k2: "2 * k < length spectrum" by simp
    have ng: "\<not> js_gt (spectrum ! k) m" using "1.prems"[of k] k2 by simp
    have "findPeak spectrum k (m, b) = findPeak spectrum (Suc k) (m, b)"
      using inr ng by (subst findPeak.simps) simp
    also have "\<dots> = (m, b)"
      using "1.hyps"(2)[OF inr ng] "1.prems" by simp
    finally show ?thesis .
  qed
qed

text \<open>The peak bin, once set, is always in the lower half of the spectrum.\<close>

lemma findPeak_bin_below_half:
  "snd (findPeak s k (m, b)) = b \<or> 2 * snd (findPeak s k (m, b)) < int (length s)"
proof (induction s k "(m, b)" arbitrary: m b rule: findPeak.induct)
  case (1 spectrum k maxVal maxBin)
  show ?case
  proof (cases "real k < real (length spectrum) / 2")
    case False
    then show ?thesis by (simp add: findPeak.simps)
  next
    case inr: True
    then have k2: "2 * k < length spectrum" by simp
    show ?thesis
    proof (cases "js_gt (spectrum ! k) maxVal")
      case True
      have eq: "findPeak spectrum k (maxVal, maxBin)
                = findPeak spectrum (Suc k) (spectrum ! k, int k)"
        using inr True by (subst findPeak.simps) simp
      from "1.hyps"(1)[OF inr True] show ?thesis
        unfolding eq using k2 by auto
    next
      case False
      have eq: "findPeak spectrum k (maxVal, maxBin)
                = findPeak spectrum (Suc k) (maxVal, maxBin)"
        using inr False by (subst findPeak.simps) simp
      from "1.hyps"(2)[OF inr False] show ?thesis
        unfolding eq by auto
    qed
  qed
qed

lemma highTone_low: "j < 1500 \<Longrightarrow> highTone ! j = Fin 0"
  by (simp add: highTone_def nth_append)

text \<open>
  Claim C2 says that the peak search runs up to the last bin of the spectrum, whose
  length is half the window. The loop stops at \<open>spectrum.length / 2\<close>, a quarter of
  the window: on the 2048-bin spectrum \<open>highTone\<close>, whose maximum 1 is in bin 1500, the
  search returns bin 10 with magnitude 0, and the chunk is discarded as silent.
\<close>

theorem peak_search_stops_at_half_spectrum:
  "length highTone = 2048 \<and> highTone ! 1500 = Fin 1 \<and>
   findPeak highTone 10 (Fin (- 1), - 1) = (Fin 0, 10) \<and>
   chunkDeviation (44100 / 4096) highTone = None"
proof -
  have len: "length highTone = 2048" by (simp add: highTone_def)
  have top: "highTone ! 1500 = Fin 1" by (simp add: highTone_def nth_append)
  have "findPeak highTone 10 (Fin (- 1), - 1) = findPeak highTone (Suc 10) (Fin 0, 10)"
    by (subst findPeak.simps) (simp add: len highTone_low)
  also have "\<dots> = (Fin 0, 10)"
  proof (rule findPeak_no_greater)
    fix j assume "2 * j < length highTone"
    then have "j < 1500" by (simp add: len)
    then show "\<not> js_gt (highTone ! j) (Fin 0)" by (simp add: highTone_low)
  qed
  finally have peak: "findPeak highTone 10 (Fin (- 1), - 1) = (Fin 0, 10)" .
  then have "chunkDeviation (44100 / 4096) highTone = None"
    by (simp add: chunkDeviation_def)
  with len top peak show ?thesis by simp
qed

section \<open>Correlation\<close>

lemma js_add_eq_Fin: "js_add a b = Fin r \<Longrightarrow> \<exists>u v. a = Fin u \<and> b = Fin v \<and> r = u + v"
  by (cases a; cases b) auto

lemma js_mul_eq_Fin: "js_mul a b = Fin r \<Longrightarrow> \<exists>u v. a = Fin u \<and> b = Fin v \<and> r = u * v"
  by (cases a; cases b) (auto simp: signed_inf_def split: if_splits)

text \<open>The three running sums of correlate are three independent sums.\<close>

lemma corr_fold_split:
  "foldl (corr_step c p mx my) (a1, a2, a3) ks =
   (foldl (\<lambda>a i. js_add a (js_mul (js_sub (num_at c (int i)) mx) (js_sub (num_at c (int i)) mx))) a1 ks,
    foldl (\<lambda>a i. js_add a (js_mul (js_sub (num_at p (int i)) my) (js_sub (num_at p (int i)) my))) a2 ks,
    foldl (\<lambda>a i. js_add a (js_mul (js_sub (num_at c (int i)) mx) (js_sub (num_at p (int i)) my))) a3 ks)"
  by (induction ks arbitrary: a1 a2 a3) (simp_all add: corr_step_def Let_def)

lemma fold_add_Fin:
  "foldl (\<lambda>a i. js_add a (g i)) s ks = Fin r \<Longrightarrow>
   (\<exists>s0. s = Fin s0) \<and> (\<forall>i \<in> set ks. \<exists>t. g i = Fin t)"
proof (induction ks arbitrary: s)
  case Nil
  then show ?case by simp
next
  case (Cons k ks)
  from Cons.prems have "foldl (\<lambda>a i. js_add a (g i)) (js_add s (g k)) ks = Fin r" by simp
  from Cons.IH[OF this] obtain s1 where s1: "js_add s (g k) = Fin s1"
    and rest: "\<forall>i \<in> set ks. \<exists>t. g i = Fin t" by blast
  from js_add_eq_Fin[OF s1] rest show ?case by auto
qed

lemma fold_add_all_Fin:
  "(\<And>i. i \<in> set ks \<Longrightarrow> g i = Fin (h i)) \<Longrightarrow>
   foldl (\<lambda>a i. js_add a (g i)) (Fin s) ks = Fin (s + sum_list (map h ks))"
  by (induction ks arbitrary: s) (simp_all add: add.assoc)

lemma sum_list_quadratic:
  fixes u v :: "'a \<Rightarrow> real"
  shows "sum_list (map (\<lambda>i. (u i * t + v i)\<^sup>2) ks) =
         t\<^sup>2 * sum_list (map (\<lambda>i. (u i)\<^sup>2) ks) + 2 * t * sum_list (map (\<lambda>i. u i * v i) ks)
         + sum_list (map (\<lambda>i. (v i)\<^sup>2) ks)"
  by (induction ks) (simp_all add: power2_eq_square algebra_simps)

lemma sum_list_squares_nonneg:
  fixes u :: "'a \<Rightarrow> real"
  shows "0 \<le> sum_list (map (\<lambda>i. (u i)\<^sup>2) ks)"
  by (induction ks) simp_all

lemma Cauchy_Schwarz_sum_list:
  fixes u v :: "'a \<Rightarrow> real"
  shows "(sum_list (map (\<lambda>i. u i * v i) ks))\<^sup>2 \<le>
         sum_list (map (\<lambda>i. (u i)\<^sup>2) ks) * sum_list (map (\<lambda>i. (v i)\<^sup>2) ks)"
proof -
  let ?A = "sum_list (map (\<lambda>i. (u i)\<^sup>2) ks)"
  let ?B = "sum_list (map (\<lambda>i. (v i)\<^sup>2) ks)"
  let ?C = "sum_list (map (\<lambda>i. u i * v i) ks)"
  have q: "0 \<le> t\<^sup>2 * ?A + 2 * t * ?C + ?B" for t
    using sum_list_squares_nonneg[of "\<lambda>i. u i * t + v i" ks] sum_list_quadratic[of u t v ks]
    by simp
  have A0: "0 \<le> ?A" by (rule sum_list_squares_nonneg)
  show ?thesis
  proof (cases "?A = 0")
    case True
    have "?C = 0"
    proof (rule ccontr)
      assume C: "?C \<noteq> 0"
      have "0 \<le> 2 * (- (?B + 1) / (2 * ?C)) * ?C + ?B"
        using q[of "- (?B + 1) / (2 * ?C)"] True by simp
      also have "2 * (- (?B + 1) / (2 * ?C)) * ?C = - (?B + 1)" using C by simp
      finally show False by simp
    qed
    with True show ?thesis by simp
  next
    case False
    with A0 have Apos: "0 < ?A" by simp
    have "0 \<le> (- ?C / ?A)\<^sup>2 * ?A + 2 * (- ?C / ?A) * ?C + ?B" by (rule q)
    also have "(- ?C / ?A)\<^sup>2 * ?A + 2 * (- ?C / ?A) * ?C + ?B = ?B - ?C\<^sup>2 / ?A"
      using Apos by (simp add: power2_eq_square field_simps)
    finally have "?C\<^sup>2 / ?A \<le> ?B" by simp
    then show ?thesis using Apos by (simp add: field_simps)
  qed
qed


lemma corr_sums_finite:
  assumes "corr_sums c p = (Fin A, Fin B, xy)"
  shows "\<exists>a. xy = Fin a \<and> a\<^sup>2 \<le> A * B \<and> 0 \<le> A \<and> 0 \<le> B"
proof -
  define mx where "mx = js_div (reduce_sum c) (Fin 12)"
  define my where "my = js_div (reduce_sum p) (Fin 12)"
  define X where "X i = js_sub (num_at c (int i)) mx" for i :: nat
  define Y where "Y i = js_sub (num_at p (int i)) my" for i :: nat
  define u where "u i = (case X i of Fin r \<Rightarrow> r | _ \<Rightarrow> 0)" for i
  define v where "v i = (case Y i of Fin r \<Rightarrow> r | _ \<Rightarrow> 0)" for i
  let ?ks = "[0..<12] :: nat list"
  from assms have
    fx: "foldl (\<lambda>a i. js_add a (js_mul (X i) (X i))) (Fin 0) ?ks = Fin A" and
    fy: "foldl (\<lambda>a i. js_add a (js_mul (Y i) (Y i))) (Fin 0) ?ks = Fin B" and
    fxy: "foldl (\<lambda>a i. js_add a (js_mul (X i) (Y i))) (Fin 0) ?ks = xy"
    unfolding corr_sums_def Let_def corr_fold_split X_def Y_def mx_def my_def by simp_all
  have Xu: "X i = Fin (u i)" if "i \<in> set ?ks" for i
  proof -
    from fold_add_Fin[OF fx] that obtain t where "js_mul (X i) (X i) = Fin t" by blast
    from js_mul_eq_Fin[OF this] show ?thesis by (auto simp: u_def)
  qed
  have Yv: "Y i = Fin (v i)" if "i \<in> set ?ks" for i
  proof -
    from fold_add_Fin[OF fy] that obtain t where "js_mul (Y i) (Y i) = Fin t" by blast
    from js_mul_eq_Fin[OF this] show ?thesis by (auto simp: v_def)
  qed
  have "foldl (\<lambda>a i. js_add a (js_mul (X i) (X i))) (Fin 0) ?ks
        = Fin (0 + sum_list (map (\<lambda>i. (u i)\<^sup>2) ?ks))"
    by (rule fold_add_all_Fin) (simp add: Xu power2_eq_square)
  with fx have A: "A = sum_list (map (\<lambda>i. (u i)\<^sup>2) ?ks)" by simp
  have "foldl (\<lambda>a i. js_add a (js_mul (Y i) (Y i))) (Fin 0) ?ks
        = Fin (0 + sum_list (map (\<lambda>i. (v i)\<^sup>2) ?ks))"
    by (rule fold_add_all_Fin) (simp add: Yv power2_eq_square)
  with fy have B: "B = sum_list (map (\<lambda>i. (v i)\<^sup>2) ?ks)" by simp
  have "foldl (\<lambda>a i. js_add a (js_mul (X i) (Y i))) (Fin 0) ?ks
        = Fin (0 + sum_list (map (\<lambda>i. u i * v i) ?ks))"
    by (rule fold_add_all_Fin) (simp add: Xu Yv)
  with fxy have xy: "xy = Fin (sum_list (map (\<lambda>i. u i * v i) ?ks))" by simp
  show ?thesis
    unfolding xy A B
    using Cauchy_Schwarz_sum_list[of u v ?ks] sum_list_squares_nonneg[of u ?ks]
      sum_list_squares_nonneg[of v ?ks]
    by blast
qed

text \<open>A correlation is NaN or a number between -1 and 1.\<close>

lemma correlate_range:
  "correlate c p = NaN \<or> (\<exists>r. correlate c p = Fin r \<and> - 1 \<le> r \<and> r \<le> 1)"
proof -
  obtain xx yy xy where sums: "corr_sums c p = (xx, yy, xy)" by (cases "corr_sums c p") auto
  show ?thesis
  proof (cases "\<exists>A B. xx = Fin A \<and> yy = Fin B")
    case True
    then obtain A B where xx: "xx = Fin A" and yy: "yy = Fin B" by blast
    from corr_sums_finite[OF sums[unfolded xx yy]] obtain a where
      xy: "xy = Fin a" and cs: "a\<^sup>2 \<le> A * B" and "0 \<le> A" "0 \<le> B" by blast
    then have AB: "0 \<le> A * B" by simp
    have val: "correlate c p = js_div (Fin a) (Fin (sqrt (A * B)))"
      using AB by (simp add: correlate_def sums xx yy xy)
    show ?thesis
    proof (cases "A * B = 0")
      case True
      with cs have "a = 0" by simp
      with True val show ?thesis by simp
    next
      case nz: False
      with AB have "0 < A * B" by (simp only: less_le) simp
      then have pos: "0 < sqrt (A * B)" by simp
      have "\<bar>a\<bar> \<le> sqrt (A * B)"
        using cs by (metis real_sqrt_abs real_sqrt_le_mono)
      then have "- 1 \<le> a / sqrt (A * B) \<and> a / sqrt (A * B) \<le> 1"
        using pos by (simp add: field_simps abs_le_iff)
      with pos val nz show ?thesis by simp
    qed
  next
    case False
    then have "js_mul xx yy = NaN \<or> js_mul xx yy = PosInf \<or> js_mul xx yy = NegInf"
      by (cases xx; cases yy) (auto simp: signed_inf_def)
    then have "js_sqrt (js_mul xx yy) = NaN \<or> js_sqrt (js_mul xx yy) = PosInf"
      by auto
    then have "js_div xy (js_sqrt (js_mul xx yy)) = NaN \<or> js_div xy (js_sqrt (js_mul xx yy)) = Fin 0"
      by (cases xy) auto
    then show ?thesis by (auto simp: correlate_def sums)
  qed
qed

lemma correlate_le_one: "\<not> js_gt (correlate c p) (Fin 1)"
  using correlate_range[of c p] by auto

text \<open>A zero denominator comes with a zero numerator: the correlation is NaN.\<close>

lemma correlate_zero_denominator:
  assumes "corr_sums c p = (xx, yy, xy)" and "js_sqrt (js_mul xx yy) = Fin 0"
  shows "correlate c p = NaN"
proof -
  from assms(2) obtain m where m: "js_mul xx yy = Fin m" and m0: "sqrt m = 0" "\<not> m < 0"
    by (cases "js_mul xx yy") (auto split: if_splits)
  from js_mul_eq_Fin[OF m] obtain A B where xx: "xx = Fin A" and yy: "yy = Fin B" and "m = A * B"
    by blast
  with m0 have AB: "A * B = 0" by simp
  from corr_sums_finite[OF assms(1)[unfolded xx yy]] obtain a where
    xy: "xy = Fin a" and cs: "a\<^sup>2 \<le> A * B" by blast
  from cs have "a\<^sup>2 \<le> 0" unfolding AB .
  then have "a = 0" by simp
  then show ?thesis using AB by (simp add: correlate_def assms(1) xx yy xy)
qed

section \<open>The scan for the best candidate\<close>

lemma js_gt_irrefl: "\<not> js_gt a a"
  by (cases a) auto

lemma js_gt_trans: "js_gt a b \<Longrightarrow> js_gt b c \<Longrightarrow> js_gt a c"
  by (cases a; cases b; cases c) auto

lemma js_gt_asym: "js_gt a b \<Longrightarrow> \<not> js_gt b a"
  by (cases a; cases b) auto

lemma js_gt_not_NaN: "js_gt a b \<Longrightarrow> a \<noteq> NaN \<and> b \<noteq> NaN"
  by (cases a; cases b) auto

lemma js_gt_below: "\<not> js_gt c b \<Longrightarrow> js_gt s b \<Longrightarrow> c = NaN \<or> js_gt s c"
  by (cases c; cases b; cases s) auto

lemma bestOf_append: "bestOf (xs @ ys) st = bestOf ys (bestOf xs st)"
  by (induction xs st rule: bestOf.induct) auto

lemma bestOf_char:
  "b \<noteq> NaN \<Longrightarrow>
   (bestOf cs (b, k) = (b, k) \<and> (\<forall>i<length cs. \<not> js_gt (fst (cs ! i)) b)) \<or>
   (\<exists>j<length cs. bestOf cs (b, k) = cs ! j \<and> js_gt (fst (cs ! j)) b \<and>
      (\<forall>i<length cs. \<not> js_gt (fst (cs ! i)) (fst (cs ! j))) \<and>
      (\<forall>i<j. fst (cs ! i) = NaN \<or> js_gt (fst (cs ! j)) (fst (cs ! i))))"
proof (induction cs arbitrary: b k)
  case Nil
  then show ?case by simp
next
  case (Cons x cs)
  obtain c0 k0 where x: "x = (c0, k0)" by (cases x)
  show ?case
  proof (cases "js_gt c0 b")
    case True
    then have c0: "c0 \<noteq> NaN" using js_gt_not_NaN by blast
    have step: "bestOf (x # cs) (b, k) = bestOf cs (c0, k0)" using True x by simp
    from Cons.IH[OF c0, of k0] show ?thesis
    proof
      assume A: "bestOf cs (c0, k0) = (c0, k0) \<and> (\<forall>i<length cs. \<not> js_gt (fst (cs ! i)) c0)"
      have "bestOf (x # cs) (b, k) = (x # cs) ! 0" using step A x by simp
      moreover have "js_gt (fst ((x # cs) ! 0)) b" using True x by simp
      moreover have "\<forall>i<length (x # cs). \<not> js_gt (fst ((x # cs) ! i)) (fst ((x # cs) ! 0))"
        using A x js_gt_irrefl by (simp add: All_less_Suc2)
      ultimately show ?thesis by (intro disjI2 exI[of _ 0]) simp
    next
      assume "\<exists>j<length cs. bestOf cs (c0, k0) = cs ! j \<and> js_gt (fst (cs ! j)) c0 \<and>
        (\<forall>i<length cs. \<not> js_gt (fst (cs ! i)) (fst (cs ! j))) \<and>
        (\<forall>i<j. fst (cs ! i) = NaN \<or> js_gt (fst (cs ! j)) (fst (cs ! i)))"
      then obtain j where j: "j < length cs" and r: "bestOf cs (c0, k0) = cs ! j"
        and g: "js_gt (fst (cs ! j)) c0"
        and mx: "\<forall>i<length cs. \<not> js_gt (fst (cs ! i)) (fst (cs ! j))"
        and fm: "\<forall>i<j. fst (cs ! i) = NaN \<or> js_gt (fst (cs ! j)) (fst (cs ! i))" by blast
      have "bestOf (x # cs) (b, k) = (x # cs) ! Suc j" using step r by simp
      moreover have "js_gt (fst ((x # cs) ! Suc j)) b" using g True js_gt_trans by auto
      moreover have "\<forall>i<length (x # cs). \<not> js_gt (fst ((x # cs) ! i)) (fst ((x # cs) ! Suc j))"
        using mx g x js_gt_asym by (simp add: All_less_Suc2)
      moreover have "\<forall>i<Suc j. fst ((x # cs) ! i) = NaN \<or> js_gt (fst ((x # cs) ! Suc j)) (fst ((x # cs) ! i))"
        using fm g x by (simp add: All_less_Suc2)
      ultimately show ?thesis using j by (intro disjI2 exI[of _ "Suc j"]) simp
    qed
  next
    case False
    have step: "bestOf (x # cs) (b, k) = bestOf cs (b, k)" using False x by simp
    from Cons.IH[OF Cons.prems, of k] show ?thesis
    proof
      assume "bestOf cs (b, k) = (b, k) \<and> (\<forall>i<length cs. \<not> js_gt (fst (cs ! i)) b)"
      then show ?thesis using step False x by (simp add: All_less_Suc2)
    next
      assume "\<exists>j<length cs. bestOf cs (b, k) = cs ! j \<and> js_gt (fst (cs ! j)) b \<and>
        (\<forall>i<length cs. \<not> js_gt (fst (cs ! i)) (fst (cs ! j))) \<and>
        (\<forall>i<j. fst (cs ! i) = NaN \<or> js_gt (fst (cs ! j)) (fst (cs ! i)))"
      then obtain j where j: "j < length cs" and r: "bestOf cs (b, k) = cs ! j"
        and g: "js_gt (fst (cs ! j)) b"
        and mx: "\<forall>i<length cs. \<not> js_gt (fst (cs ! i)) (fst (cs ! j))"
        and fm: "\<forall>i<j. fst (cs ! i) = NaN \<or> js_gt (fst (cs ! j)) (fst (cs ! i))" by blast
      from js_gt_below[OF False g] have c0: "c0 = NaN \<or> js_gt (fst (cs ! j)) c0" .
      have "bestOf (x # cs) (b, k) = (x # cs) ! Suc j" using step r by simp
      moreover have "js_gt (fst ((x # cs) ! Suc j)) b" using g by simp
      moreover have "\<forall>i<length (x # cs). \<not> js_gt (fst ((x # cs) ! i)) (fst ((x # cs) ! Suc j))"
        using mx c0 x js_gt_asym by (auto simp add: All_less_Suc2)
      moreover have "\<forall>i<Suc j. fst ((x # cs) ! i) = NaN \<or> js_gt (fst ((x # cs) ! Suc j)) (fst ((x # cs) ! i))"
        using fm c0 x by (simp add: All_less_Suc2)
      ultimately show ?thesis using j by (intro disjI2 exI[of _ "Suc j"]) simp
    qed
  qed
qed


lemma keyLoop_bestOf:
  "keyLoop profile mode c ks st =
   bestOf (map (\<lambda>i. (correlate c (rotate_js profile (int i)), KEYS ! i @ '' '' @ mode)) ks) st"
  by (induction ks arbitrary: st) (auto simp: Let_def)

lemma candidates_split:
  "candidates c =
     map (\<lambda>i. (correlate (map Some c) (rotate_js MAJOR_PROFILE (int i)), KEYS ! i @ '' '' @ ''Major'')) [0..<12] @
     map (\<lambda>i. (correlate (map Some c) (rotate_js MINOR_PROFILE (int i)), KEYS ! i @ '' '' @ ''Minor'')) [0..<12]"
proof -
  have "[0..<24] = [0..<12] @ map (\<lambda>i. i + 12) [0..<12]" by code_simp
  then show ?thesis
    by (simp add: candidates_def candidateScore_def candidateName_def comp_def del: upt_Suc)
qed

lemma selectKey_candidates: "selectKey c = snd (bestOf (candidates c) (NegInf, ''''))"
  by (simp add: selectKey_def keyLoop_bestOf candidates_split bestOf_append del: upt_Suc)

lemma selectKey_char:
  "(selectKey c = '''' \<and> (\<forall>j<24. \<not> js_gt (candidateScore c j) NegInf)) \<or>
   (\<exists>j<24. selectKey c = candidateName j \<and> js_gt (candidateScore c j) NegInf \<and>
      (\<forall>i<24. \<not> js_gt (candidateScore c i) (candidateScore c j)) \<and>
      (\<forall>i<j. candidateScore c i = NaN \<or> js_gt (candidateScore c j) (candidateScore c i)))"
proof -
  have len: "length (candidates c) = 24" by (simp add: candidates_def)
  have nth: "candidates c ! i = (candidateScore c i, candidateName i)" if "i < 24" for i
    using that by (simp add: candidates_def del: upt_Suc)
  have "NegInf \<noteq> NaN" by simp
  from bestOf_char[OF this, of "candidates c" "''''"] show ?thesis
  proof
    assume "bestOf (candidates c) (NegInf, '''') = (NegInf, '''') \<and>
            (\<forall>i<length (candidates c). \<not> js_gt (fst (candidates c ! i)) NegInf)"
    then show ?thesis by (simp add: selectKey_candidates len nth)
  next
    assume "\<exists>j<length (candidates c).
       bestOf (candidates c) (NegInf, '''') = candidates c ! j \<and>
       js_gt (fst (candidates c ! j)) NegInf \<and>
       (\<forall>i<length (candidates c). \<not> js_gt (fst (candidates c ! i)) (fst (candidates c ! j))) \<and>
       (\<forall>i<j. fst (candidates c ! i) = NaN \<or> js_gt (fst (candidates c ! j)) (fst (candidates c ! i)))"
    then obtain j where j: "j < 24"
      and r: "bestOf (candidates c) (NegInf, '''') = candidates c ! j"
      and g: "js_gt (fst (candidates c ! j)) NegInf"
      and mx: "\<forall>i<24. \<not> js_gt (fst (candidates c ! i)) (fst (candidates c ! j))"
      and fm: "\<forall>i<j. fst (candidates c ! i) = NaN \<or> js_gt (fst (candidates c ! j)) (fst (candidates c ! i))"
      unfolding len by blast
    have "selectKey c = candidateName j" using r j by (simp add: selectKey_candidates nth)
    moreover have "js_gt (candidateScore c j) NegInf" using g j by (simp add: nth)
    moreover have "\<forall>i<24. \<not> js_gt (candidateScore c i) (candidateScore c j)"
      using mx j by (simp add: nth)
    moreover have "\<forall>i<j. candidateScore c i = NaN \<or> js_gt (candidateScore c j) (candidateScore c i)"
      using fm j by (simp add: nth)
    ultimately show ?thesis using j by blast
  qed
qed

lemma selectKey_first_maximum:
  assumes j: "j < 24" and g: "js_gt (candidateScore c j) NegInf"
    and mx: "\<forall>i<24. \<not> js_gt (candidateScore c i) (candidateScore c j)"
    and fm: "\<forall>i<j. candidateScore c i = NaN \<or> js_gt (candidateScore c j) (candidateScore c i)"
  shows "selectKey c = candidateName j"
proof -
  from selectKey_char[of c] g j obtain j0 where j0: "j0 < 24"
    and r: "selectKey c = candidateName j0"
    and g0: "js_gt (candidateScore c j0) NegInf"
    and mx0: "\<forall>i<24. \<not> js_gt (candidateScore c i) (candidateScore c j0)"
    and fm0: "\<forall>i<j0. candidateScore c i = NaN \<or> js_gt (candidateScore c j0) (candidateScore c i)"
    by blast
  have nn: "candidateScore c j \<noteq> NaN" "candidateScore c j0 \<noteq> NaN"
    using g g0 js_gt_not_NaN by blast+
  have "\<not> j < j0" using fm0 mx j0 nn by blast
  moreover have "\<not> j0 < j" using fm mx0 j nn by blast
  ultimately have "j0 = j" by simp
  with r show ?thesis by simp
qed

lemma distinct_candidateNames: "distinct (map candidateName [0..<24])"
  by code_simp

section \<open>Correlation of finite vectors and the selected key\<close>

lemma reduce_sum_fold_reals:
  "foldl (\<lambda>a b. js_add a (toNumber b)) (Fin s) (map (\<lambda>v. Some (Fin v)) xs) = Fin (s + sum_list xs)"
  by (induction xs arbitrary: s) (simp_all add: add.assoc)

lemma reduce_sum_reals: "reduce_sum (map (\<lambda>v. Some (Fin v)) xs) = Fin (sum_list xs)"
  by (simp add: reduce_sum_def reduce_sum_fold_reals)

lemma num_at_reals: "i < length xs \<Longrightarrow> num_at (map (\<lambda>v. Some (Fin v)) xs) (int i) = Fin (xs ! i)"
  by (simp add: num_at_def js_get_def)

text \<open>On finite inputs the loop of correlate computes the three sums of the Pearson formula.\<close>

lemma corr_sums_reals:
  assumes "length xs = 12" and "length ys = 12"
  shows "corr_sums (map (\<lambda>v. Some (Fin v)) xs) (map (\<lambda>v. Some (Fin v)) ys) =
         (Fin (sum_list (map (\<lambda>i. (xs ! i - sum_list xs / 12)\<^sup>2) [0..<12])),
          Fin (sum_list (map (\<lambda>i. (ys ! i - sum_list ys / 12)\<^sup>2) [0..<12])),
          Fin (sum_list (map (\<lambda>i. (xs ! i - sum_list xs / 12) * (ys ! i - sum_list ys / 12)) [0..<12])))"
proof -
  let ?c = "map (\<lambda>v. Some (Fin v)) xs" and ?p = "map (\<lambda>v. Some (Fin v)) ys"
  let ?mx = "Fin (sum_list xs / 12)" and ?my = "Fin (sum_list ys / 12)"
  have mx: "js_div (reduce_sum ?c) (Fin 12) = ?mx" by (simp add: reduce_sum_reals)
  have my: "js_div (reduce_sum ?p) (Fin 12) = ?my" by (simp add: reduce_sum_reals)
  have X: "js_sub (num_at ?c (int i)) ?mx = Fin (xs ! i - sum_list xs / 12)" if "i \<in> set [0..<12]" for i
    using that assms by (simp add: num_at_reals js_sub_def del: upt_Suc)
  have Y: "js_sub (num_at ?p (int i)) ?my = Fin (ys ! i - sum_list ys / 12)" if "i \<in> set [0..<12]" for i
    using that assms by (simp add: num_at_reals js_sub_def del: upt_Suc)
  have a: "foldl (\<lambda>a i. js_add a (js_mul (js_sub (num_at ?c (int i)) ?mx) (js_sub (num_at ?c (int i)) ?mx)))
             (Fin 0) [0..<12]
           = Fin (0 + sum_list (map (\<lambda>i. (xs ! i - sum_list xs / 12)\<^sup>2) [0..<12]))"
    by (rule fold_add_all_Fin) (simp add: X power2_eq_square del: upt_Suc)
  have b: "foldl (\<lambda>a i. js_add a (js_mul (js_sub (num_at ?p (int i)) ?my) (js_sub (num_at ?p (int i)) ?my)))
             (Fin 0) [0..<12]
           = Fin (0 + sum_list (map (\<lambda>i. (ys ! i - sum_list ys / 12)\<^sup>2) [0..<12]))"
    by (rule fold_add_all_Fin) (simp add: Y power2_eq_square del: upt_Suc)
  have c: "foldl (\<lambda>a i. js_add a (js_mul (js_sub (num_at ?c (int i)) ?mx) (js_sub (num_at ?p (int i)) ?my)))
             (Fin 0) [0..<12]
           = Fin (0 + sum_list (map (\<lambda>i. (xs ! i - sum_list xs / 12) * (ys ! i - sum_list ys / 12)) [0..<12]))"
    by (rule fold_add_all_Fin) (simp add: X Y del: upt_Suc)
  show ?thesis
    unfolding corr_sums_def Let_def mx my corr_fold_split a b c by simp
qed

text \<open>A non-constant finite vector correlates with itself at exactly 1.\<close>

lemma correlate_self:
  assumes len: "length xs = 12" and i: "i < 12" and ne: "xs ! i \<noteq> sum_list xs / 12"
  shows "correlate (map (\<lambda>v. Some (Fin v)) xs) (map (\<lambda>v. Some (Fin v)) xs) = Fin 1"
proof -
  let ?A = "sum_list (map (\<lambda>i. (xs ! i - sum_list xs / 12)\<^sup>2) [0..<12])"
  have A0: "0 \<le> ?A" by (rule sum_list_squares_nonneg)
  have "?A \<noteq> 0"
  proof
    assume "?A = 0"
    then have "\<forall>x \<in> set (map (\<lambda>i. (xs ! i - sum_list xs / 12)\<^sup>2) [0..<12]). x = 0"
      by (subst (asm) sum_list_nonneg_eq_0_iff) auto
    then have "(xs ! i - sum_list xs / 12)\<^sup>2 = 0" using i by (simp del: upt_Suc)
    with ne show False by simp
  qed
  with A0 have A: "0 < ?A" by simp
  have sq: "(\<lambda>i. (xs ! i - sum_list xs / 12) * (xs ! i - sum_list xs / 12))
            = (\<lambda>i. (xs ! i - sum_list xs / 12)\<^sup>2)"
    by (simp add: power2_eq_square)
  have "correlate (map (\<lambda>v. Some (Fin v)) xs) (map (\<lambda>v. Some (Fin v)) xs)
        = js_div (Fin ?A) (js_sqrt (js_mul (Fin ?A) (Fin ?A)))"
    by (simp add: correlate_def corr_sums_reals[OF len len] sq del: upt_Suc)
  also have "\<dots> = Fin 1" using A by (simp add: real_sqrt_mult del: upt_Suc)
  finally show ?thesis .
qed

lemma rotate_js_zero: "rotate_js arr 0 = map Some arr"
  by (rule nth_equalityI) (simp_all add: length_rotate_js rotate_js_nth)

lemma MAJOR_PROFILE_reals:
  "map Some MAJOR_PROFILE = map (\<lambda>v. Some (Fin v))
     [6.35, 2.23, 3.48, 2.33, 4.38, 4.09, 2.52, 5.19, 2.39, 3.66, 2.29, 2.88]"
  by (simp add: MAJOR_PROFILE_def)

lemma major_profile_scores_one: "candidateScore MAJOR_PROFILE 0 = Fin 1"
proof -
  have "correlate (map Some MAJOR_PROFILE) (map Some MAJOR_PROFILE) = Fin 1"
    unfolding MAJOR_PROFILE_reals
    by (rule correlate_self[where i = 0]) simp_all
  then show ?thesis by (simp add: candidateScore_def rotate_js_zero)
qed

lemma candidateScore_le_one: "\<not> js_gt (candidateScore c j) (Fin 1)"
  by (simp add: candidateScore_def correlate_le_one)

lemma selectKey_major_profile: "selectKey MAJOR_PROFILE = ''C Major''"
proof -
  have "selectKey MAJOR_PROFILE = candidateName 0"
    by (rule selectKey_first_maximum) (simp_all add: major_profile_scores_one candidateScore_le_one)
  then show ?thesis by (simp add: candidateName_def KEYS_def)
qed

text \<open>
  Claim C5: when the chroma vector is the unrotated major profile, the selection
  returns rotation 0 of the major profile, "C Major"; that candidate's correlation is
  exactly 1, and no candidate scores above 1.
\<close>

theorem major_profile_selects_C_major:
  "selectKey MAJOR_PROFILE = ''C Major'' \<and> candidateName 0 = ''C Major'' \<and>
   candidateScore MAJOR_PROFILE 0 = Fin 1 \<and>
   \<not> js_gt (candidateScore MAJOR_PROFILE j) (Fin 1)"
  by (simp add: selectKey_major_profile major_profile_scores_one candidateScore_le_one
      candidateName_def KEYS_def)

lemma upt_12: "[0..<12] = [0, 1, 2, 3, 4, 5, 6, 7, 8, 9, 10, 11]"
  by code_simp

lemma rotate_major_1: "rotate_js MAJOR_PROFILE 1 = map Some cSharpMajorChroma"
  by (simp add: rotate_js_def upt_12 js_rem_def js_get_def MAJOR_PROFILE_def cSharpMajorChroma_def)

lemma cSharp_reals:
  "map Some cSharpMajorChroma = map (\<lambda>v. Some (Fin v))
     [2.88, 6.35, 2.23, 3.48, 2.33, 4.38, 4.09, 2.52, 5.19, 2.39, 3.66, 2.29]"
  by (simp add: cSharpMajorChroma_def)

lemma correlate_nonpositive:
  assumes "length xs = 12" and "length ys = 12"
    and "sum_list (map (\<lambda>i. (xs ! i - sum_list xs / 12) * (ys ! i - sum_list ys / 12)) [0..<12]) \<le> 0"
  shows "correlate (map (\<lambda>v. Some (Fin v)) xs) (map (\<lambda>v. Some (Fin v)) ys) = NaN \<or>
         js_gt (Fin 1) (correlate (map (\<lambda>v. Some (Fin v)) xs) (map (\<lambda>v. Some (Fin v)) ys))"
proof -
  let ?A = "sum_list (map (\<lambda>i. (xs ! i - sum_list xs / 12)\<^sup>2) [0..<12])"
  let ?B = "sum_list (map (\<lambda>i. (ys ! i - sum_list ys / 12)\<^sup>2) [0..<12])"
  let ?C = "sum_list (map (\<lambda>i. (xs ! i - sum_list xs / 12) * (ys ! i - sum_list ys / 12)) [0..<12])"
  have AB: "0 \<le> ?A * ?B"
    by (intro mult_nonneg_nonneg sum_list_squares_nonneg)
  have val: "correlate (map (\<lambda>v. Some (Fin v)) xs) (map (\<lambda>v. Some (Fin v)) ys)
        = js_div (Fin ?C) (Fin (sqrt (?A * ?B)))"
    using AB by (simp add: correlate_def corr_sums_reals[OF assms(1,2)] del: upt_Suc)
  have "?C / sqrt (?A * ?B) \<le> 0"
    by (intro divide_nonpos_nonneg) (use assms(3) AB in simp_all)
  then have "?C / sqrt (?A * ?B) < 1" by linarith
  then show ?thesis
    unfolding val using assms(3) by (auto simp add: signed_inf_def simp del: upt_Suc)
qed

lemma cSharp_score_0:
  "candidateScore cSharpMajorChroma 0 = NaN \<or> js_gt (Fin 1) (candidateScore cSharpMajorChroma 0)"
proof -
  have "correlate (map Some cSharpMajorChroma) (map Some MAJOR_PROFILE) = NaN \<or>
        js_gt (Fin 1) (correlate (map Some cSharpMajorChroma) (map Some MAJOR_PROFILE))"
    unfolding cSharp_reals MAJOR_PROFILE_reals
    by (rule correlate_nonpositive) (simp_all add: upt_12)
  then show ?thesis by (simp add: candidateScore_def rotate_js_zero)
qed

lemma cSharp_score_1: "candidateScore cSharpMajorChroma 1 = Fin 1"
proof -
  have "correlate (map Some cSharpMajorChroma) (map Some cSharpMajorChroma) = Fin 1"
    unfolding cSharp_reals by (rule correlate_self[where i = 0]) simp_all
  then show ?thesis by (simp add: candidateScore_def rotate_major_1)
qed

lemma candidateName_nonempty: "candidateName j \<noteq> ''''"
  by (simp add: candidateName_def)

lemma candidateName_inj: "i < 24 \<Longrightarrow> j < 24 \<Longrightarrow> candidateName i = candidateName j \<Longrightarrow> i = j"
  using distinct_candidateNames
  by (simp add: distinct_conv_nth del: upt_Suc) metis

lemma selectKey_empty_iff:
  "selectKey c = '''' \<longleftrightarrow> (\<forall>j<24. \<not> js_gt (candidateScore c j) NegInf)"
  using selectKey_char[of c] candidateName_nonempty by metis

lemma selected_is_comparable:
  assumes "j < 24" and "selectKey c = candidateName j"
  shows "js_gt (candidateScore c j) NegInf"
proof -
  from selectKey_char[of c] assms(2) candidateName_nonempty obtain j0 where
    "j0 < 24" "selectKey c = candidateName j0" "js_gt (candidateScore c j0) NegInf"
    by metis
  moreover from this assms have "j0 = j" by (metis candidateName_inj)
  ultimately show ?thesis by simp
qed

text \<open>A constant chroma vector has no correlation with any profile.\<close>

lemma correlate_constant_chroma:
  "correlate (replicate 12 (Some (Fin v))) p = NaN"
proof -
  let ?c = "replicate 12 (Some (Fin v))"
  have c: "?c = map (\<lambda>v. Some (Fin v)) (replicate 12 v)" by simp
  have mx: "js_div (reduce_sum ?c) (Fin 12) = Fin v"
    unfolding c reduce_sum_reals by (simp add: sum_list_replicate)
  obtain xx yy xy where sums: "corr_sums ?c p = (xx, yy, xy)" by (cases "corr_sums ?c p") auto
  have X: "js_mul (js_sub (num_at ?c (int i)) (Fin v)) (js_sub (num_at ?c (int i)) (Fin v)) = Fin 0"
    if "i \<in> set [0..<12]" for i
    using that by (simp add: num_at_def js_get_def js_sub_def del: upt_Suc)
  have "foldl (\<lambda>a i. js_add a (js_mul (js_sub (num_at ?c (int i)) (Fin v))
                                     (js_sub (num_at ?c (int i)) (Fin v)))) (Fin 0) [0..<12]
        = Fin (0 + sum_list (map (\<lambda>i. 0) [0..<12]))"
    by (rule fold_add_all_Fin) (rule X)
  then have xx: "xx = Fin 0"
    using sums unfolding corr_sums_def Let_def mx corr_fold_split by (simp del: upt_Suc)
  show ?thesis
  proof (cases "\<exists>B. yy = Fin B")
    case True
    then have "js_sqrt (js_mul xx yy) = Fin 0" using xx by auto
    with sums show ?thesis by (rule correlate_zero_denominator)
  next
    case False
    then have "js_mul xx yy = NaN" using xx by (cases yy) auto
    then show ?thesis by (cases xy) (simp_all add: correlate_def sums)
  qed
qed

lemma selectKey_constant_chroma: "selectKey (replicate 12 (Fin v)) = ''''"
proof -
  have "candidateScore (replicate 12 (Fin v)) j = NaN" for j
    by (simp add: candidateScore_def correlate_constant_chroma)
  then show ?thesis by (simp add: selectKey_empty_iff)
qed

text \<open>
  Claim C7: the two loops are one scan over the 24 candidates, majors first and tonic
  ascending within a mode, that replaces the best only on a strictly greater score.
  So the candidate returned is the first one, in that order, whose score no other
  score exceeds: whenever \<open>j\<close> is such a first maximum its name is returned, and as
  soon as one score compares greater than \<open>-Infinity\<close> there is one.
\<close>

theorem key_selection_keeps_first_maximum:
  "selectKey c = snd (bestOf (candidates c) (NegInf, '''')) \<and>
   (\<forall>j<24. js_gt (candidateScore c j) NegInf \<and>
            (\<forall>i<24. \<not> js_gt (candidateScore c i) (candidateScore c j)) \<and>
            (\<forall>i<j. candidateScore c i = NaN \<or> js_gt (candidateScore c j) (candidateScore c i))
         \<longrightarrow> selectKey c = candidateName j) \<and>
   ((\<exists>j<24. js_gt (candidateScore c j) NegInf) \<longrightarrow>
    (\<exists>j<24. selectKey c = candidateName j \<and> js_gt (candidateScore c j) NegInf \<and>
       (\<forall>i<24. \<not> js_gt (candidateScore c i) (candidateScore c j)) \<and>
       (\<forall>i<j. candidateScore c i = NaN \<or> js_gt (candidateScore c j) (candidateScore c i))))"
proof (intro conjI)
  show "selectKey c = snd (bestOf (candidates c) (NegInf, ''''))"
    by (rule selectKey_candidates)
  show "\<forall>j<24. js_gt (candidateScore c j) NegInf \<and>
            (\<forall>i<24. \<not> js_gt (candidateScore c i) (candidateScore c j)) \<and>
            (\<forall>i<j. candidateScore c i = NaN \<or> js_gt (candidateScore c j) (candidateScore c i))
         \<longrightarrow> selectKey c = candidateName j"
    using selectKey_first_maximum[of _ c] by blast
  show "(\<exists>j<24. js_gt (candidateScore c j) NegInf) \<longrightarrow>
    (\<exists>j<24. selectKey c = candidateName j \<and> js_gt (candidateScore c j) NegInf \<and>
       (\<forall>i<24. \<not> js_gt (candidateScore c i) (candidateScore c j)) \<and>
       (\<forall>i<j. candidateScore c i = NaN \<or> js_gt (candidateScore c j) (candidateScore c i)))"
    using selectKey_char[of c] by blast
qed

theorem key_selection_keeps_first_maximum_witness:
  "js_gt (candidateScore cSharpMajorChroma 1) NegInf \<and>
   (candidateScore cSharpMajorChroma 0 = NaN \<or>
    js_gt (candidateScore cSharpMajorChroma 1) (candidateScore cSharpMajorChroma 0)) \<and>
   selectKey cSharpMajorChroma = ''C# Major''"
proof -
  have g: "js_gt (candidateScore cSharpMajorChroma 1) NegInf"
    unfolding cSharp_score_1 by simp
  have mx: "\<forall>i<24. \<not> js_gt (candidateScore cSharpMajorChroma i) (candidateScore cSharpMajorChroma 1)"
    unfolding cSharp_score_1 by (simp add: candidateScore_le_one)
  have z: "candidateScore cSharpMajorChroma 0 = NaN \<or>
           js_gt (candidateScore cSharpMajorChroma 1) (candidateScore cSharpMajorChroma 0)"
    unfolding cSharp_score_1 by (rule cSharp_score_0)
  have fm: "\<forall>i<1. candidateScore cSharpMajorChroma i = NaN \<or>
           js_gt (candidateScore cSharpMajorChroma 1) (candidateScore cSharpMajorChroma i)"
    using z by (simp only: less_one) blast
  have one: "(1::nat) < 24" by simp
  from key_selection_keeps_first_maximum[of cSharpMajorChroma] one g mx fm
  have "selectKey cSharpMajorChroma = candidateName 1" by blast
  moreover have "candidateName 1 = ''C# Major''" by (simp add: candidateName_def KEYS_def)
  ultimately show ?thesis using g z by simp
qed

text \<open>A buffer of 8192 samples at 44100 Hz has exactly one analysed frame, the one at 0.\<close>

lemma accumulateChroma_one_frame:
  "accumulateChroma (\<lambda>chunk. Some ch) \<lparr>channelData = replicate 8192 x, sampleRate = 44100\<rparr>
   = (map (\<lambda>k. js_add (Fin 0) (num_at ch (int k))) [0..<12], Suc 0)"
proof -
  let ?ex = "\<lambda>chunk :: real list. Some ch"
  let ?acc = "map (\<lambda>k. js_add (Fin 0) (num_at ch (int k))) [0..<12]"
  have acc: "map (\<lambda>k. js_add (replicate 12 (Fin 0) ! k) (num_at ch (int k))) [0..<12] = ?acc"
    by (rule map_cong) (simp_all del: upt_Suc)
  have "keyFrames ?ex (replicate 8192 x) 8192 0 (replicate 12 (Fin 0), 0)
        = keyFrames ?ex (replicate 8192 x) 8192 8192 (?acc, Suc 0)"
    by (subst keyFrames.simps) (simp add: slice_def acc del: upt_Suc)
  also have "\<dots> = (?acc, Suc 0)"
    by (rule keyFrames_stop) simp
  finally have frames: "keyFrames ?ex (replicate 8192 x) 8192 0 (replicate 12 (Fin 0), 0)
        = (?acc, Suc 0)" .
  show ?thesis
    by (simp add: accumulateChroma_def Let_def duration_def buf_length_def frames del: upt_Suc)
qed

lemma averageChroma_silent_frame:
  "averageChroma (\<lambda>chunk. Some (replicate 12 (Some (Fin 0))))
     \<lparr>channelData = replicate 8192 0, sampleRate = 44100\<rparr> = replicate 12 (Fin 0)"
proof -
  have rep: "replicate 12 (Fin 0) = map (\<lambda>k. Fin 0) [0..<12]"
    by (simp add: map_replicate_const del: upt_Suc)
  show ?thesis
    unfolding averageChroma_def accumulateChroma_one_frame rep
    by (simp add: num_at_def js_get_def del: upt_Suc)
qed

text \<open>
  What detectKey can return at all: "Unknown", one of the 24 key names, or the initial
  value of \<open>bestKey\<close>, the empty string.
\<close>

lemma detectKey_total_shape:
  "fst (detectKey env b g) = ''Unknown'' \<or> fst (detectKey env b g) = '''' \<or>
   (\<exists>j<24. fst (detectKey env b g) = candidateName j)"
proof -
  let ?ex = "chromaFeature env (Some (rawContext env))"
  have r: "fst (detectKey env b g) = keyEstimate ?ex b"
    by (simp add: detectKey_def Let_def)
  show ?thesis
  proof (cases "snd (accumulateChroma ?ex b) = 0")
    case True
    then show ?thesis by (simp add: r keyEstimate_def)
  next
    case False
    then have sel: "fst (detectKey env b g) = selectKey (averageChroma ?ex b)"
      by (simp add: r keyEstimate_def)
    from selectKey_char[of "averageChroma ?ex b"] show ?thesis
      unfolding sel by blast
  qed
qed

lemma never_selected_with_zero_denominator:
  assumes "corr_sums x p = (xx, yy, xy)" and "js_sqrt (js_mul xx yy) = Fin 0"
  shows "\<not> js_gt (correlate x p) best"
  using correlate_zero_denominator[OF assms] by simp

text \<open>
  Claim C1 says that detectKey returns one of the 24 key names or "Unknown" for every
  buffer, and that a zero denominator cannot corrupt the returned string. On 8192
  samples of silence at 44100 Hz one frame is analysed and its chroma is all zero:
  every one of the 24 correlations is \<open>0 / 0\<close>, NaN, no comparison succeeds, and the
  method returns the initial value of \<open>bestKey\<close>, the empty string, where the path
  for \<open>frames === 0\<close> returns "Unknown".
\<close>

theorem silent_frames_return_empty_string:
  "snd (accumulateChroma (chromaFeature silentEnv (Some (rawContext silentEnv)))
          \<lparr>channelData = replicate 8192 0, sampleRate = 44100\<rparr>) = 1 \<and>
   averageChroma (chromaFeature silentEnv (Some (rawContext silentEnv)))
          \<lparr>channelData = replicate 8192 0, sampleRate = 44100\<rparr> = replicate 12 (Fin 0) \<and>
   candidateScore (replicate 12 (Fin 0)) j = NaN \<and>
   fst (detectKey silentEnv \<lparr>channelData = replicate 8192 0, sampleRate = 44100\<rparr>
          \<lparr>audioContext = None\<rparr>) = '''' \<and>
   '''' \<noteq> ''Unknown'' \<and> '''' \<notin> set (map candidateName [0..<24])"
proof -
  let ?b = "\<lparr>channelData = replicate 8192 (0::real), sampleRate = 44100\<rparr>"
  have ex: "chromaFeature silentEnv (Some (rawContext silentEnv))
            = (\<lambda>chunk. Some (replicate 12 (Some (Fin 0))))"
    by (simp add: silentEnv_def)
  have frames: "snd (accumulateChroma (chromaFeature silentEnv (Some (rawContext silentEnv))) ?b) = 1"
    unfolding ex accumulateChroma_one_frame by simp
  have avg: "averageChroma (chromaFeature silentEnv (Some (rawContext silentEnv))) ?b
             = replicate 12 (Fin 0)"
    unfolding ex by (rule averageChroma_silent_frame)
  have score: "candidateScore (replicate 12 (Fin 0)) j = NaN"
    by (simp add: candidateScore_def correlate_constant_chroma)
  have "keyEstimate (chromaFeature silentEnv (Some (rawContext silentEnv))) ?b
        = selectKey (replicate 12 (Fin 0))"
    using frames by (simp add: keyEstimate_def avg)
  then have res: "fst (detectKey silentEnv ?b \<lparr>audioContext = None\<rparr>) = ''''"
    by (simp add: detectKey_def Let_def selectKey_constant_chroma)
  have "'''' \<noteq> candidateName i" for i using candidateName_nonempty[of i] by simp
  then have names: "'''' \<notin> set (map candidateName [0..<24])" by (auto simp del: upt_Suc)
  from frames avg score res names show ?thesis by simp
qed

section \<open>The tuning reference\<close>

lemma chunkDeviation_spectrumDeviations:
  "(case chunkDeviation bs s of None \<Rightarrow> [] | Some d \<Rightarrow> [d]) = spectrumDeviations bs s"
  by (simp add: chunkDeviation_def spectrumDeviations_def centsDeviation_def Let_def split: prod.splits)

text \<open>The chunk loop adds up the deviations of the valid chunks from index \<open>i\<close> on.\<close>

lemma tuningLoop_sums:
  "tuningLoop ex xs bs stp i (t, v) =
   (let ds = concat (map (\<lambda>start.
                case ex (slice xs (int start) (int start + 4096)) of
                  None \<Rightarrow> [] | Some spectrum \<Rightarrow> spectrumDeviations bs spectrum)
              (takeWhile (\<lambda>start. start + 4096 \<le> length xs) (map (\<lambda>i. i * stp) [i..<50])))
    in (t + sum_list ds, v + length ds))"
proof (induction ex xs bs stp i "(t, v)" arbitrary: t v rule: tuningLoop.induct)
  case (1 ex xs bs stp i t v)
  show ?case
  proof (cases "i < 50")
    case False
    then show ?thesis by (simp add: tuningLoop.simps)
  next
    case lt: True
    then have upt: "[i..<50] = i # [Suc i..<50]" by (simp add: upt_conv_Cons)
    show ?thesis
    proof (cases "length xs < i * stp + 4096")
      case True
      then show ?thesis using lt by (subst tuningLoop.simps) (simp add: upt Let_def)
    next
      case nb: False
      let ?chunk = "slice xs (int (i * stp)) (int (i * stp) + 4096)"
      let ?here = "case ex ?chunk of None \<Rightarrow> [] | Some spectrum \<Rightarrow> spectrumDeviations bs spectrum"
      have st: "(case ex ?chunk of None \<Rightarrow> (t, v)
                 | Some spectrum \<Rightarrow> (case chunkDeviation bs spectrum of None \<Rightarrow> (t, v)
                      | Some deviation \<Rightarrow> (t + deviation, Suc v)))
                = (t + sum_list ?here, v + length ?here)"
        unfolding chunkDeviation_spectrumDeviations[symmetric]
        by (simp split: option.splits)
      have "tuningLoop ex xs bs stp i (t, v)
            = tuningLoop ex xs bs stp (Suc i) (t + sum_list ?here, v + length ?here)"
        using lt nb st by (subst tuningLoop.simps) (simp add: Let_def)
      also note "1.hyps"[OF lt refl nb refl st]
      finally show ?thesis
        using nb by (simp add: upt Let_def add.assoc)
    qed
  qed
qed

lemma tuningReference_formula:
  "tuningReference ex b =
     (let ds = validChunkDeviations ex b
      in if ds = [] then 440
         else round (440 * 2 powr ((sum_list ds / real (length ds)) / 1200)))"
  by (simp add: tuningReference_def tuningLoop_sums validChunkDeviations_def chunkStarts_def Let_def
      del: upt_Suc)

lemma abs_centsDeviation: "\<bar>centsDeviation f\<bar> \<le> 50"
proof -
  define x where "x = 69 + 12 * log 2 (f / 440) - real_of_int (round (69 + 12 * log 2 (f / 440)))"
  have "\<bar>x\<bar> \<le> 1 / 2"
    unfolding x_def using of_int_round_abs_le[of "69 + 12 * log 2 (f / 440)"]
    by (simp only: abs_minus_commute)
  moreover have "centsDeviation f = x * 100"
    by (simp only: centsDeviation_def Let_def x_def)
  ultimately show ?thesis by (simp add: abs_mult)
qed

lemma validChunkDeviations_bounded: "d \<in> set (validChunkDeviations ex b) \<Longrightarrow> \<bar>d\<bar> \<le> 50"
  by (auto simp add: validChunkDeviations_def spectrumDeviations_def abs_centsDeviation
      split: option.splits prod.splits if_splits simp del: upt_Suc)

lemma abs_sum_list_bound:
  fixes ds :: "real list"
  shows "(\<And>d. d \<in> set ds \<Longrightarrow> \<bar>d\<bar> \<le> c) \<Longrightarrow> \<bar>sum_list ds\<bar> \<le> c * real (length ds)"
proof (induction ds)
  case Nil
  then show ?case by simp
next
  case (Cons d ds)
  have "\<bar>d\<bar> \<le> c" using Cons.prems by simp
  moreover have "\<bar>sum_list ds\<bar> \<le> c * real (length ds)" using Cons by simp
  ultimately show ?case by (simp add: algebra_simps)
qed

lemma abs_average_bound:
  fixes ds :: "real list"
  assumes "\<And>d. d \<in> set ds \<Longrightarrow> \<bar>d\<bar> \<le> c" and "ds \<noteq> []"
  shows "\<bar>sum_list ds / real (length ds)\<bar> \<le> c"
proof -
  have pos: "0 < real (length ds)" using assms(2) by simp
  have "\<bar>sum_list ds\<bar> \<le> c * real (length ds)" using assms(1) by (rule abs_sum_list_bound)
  then have "\<bar>sum_list ds\<bar> / real (length ds) \<le> c" using pos by (simp add: field_simps)
  then show ?thesis by simp
qed

lemma two_powr_24th_upper: "2 powr (1 / 24) < (907 / 880 :: real)"
proof -
  let ?q = "907 / 880 :: real"
  have "(2::real) < ?q ^ 24" by (simp add: power_divide)
  then have "2 powr (1 / 24) < (?q ^ 24) powr (1 / 24)"
    by (intro powr_less_mono2) simp_all
  also have "(?q ^ 24) powr (1 / 24) = ?q powr (24 * (1 / 24))"
    by (subst powr_realpow[symmetric], simp, subst powr_powr, simp)
  also have "\<dots> = ?q" by simp
  finally show ?thesis .
qed

lemma two_powr_24th_lower: "(853 / 880 :: real) \<le> 2 powr (- (1 / 24))"
proof -
  let ?q = "880 / 853 :: real"
  have "(2::real) \<le> ?q ^ 24" by (simp add: power_divide)
  then have "2 powr (1 / 24) \<le> (?q ^ 24) powr (1 / 24)"
    by (intro powr_mono2) simp_all
  also have "(?q ^ 24) powr (1 / 24) = ?q powr (24 * (1 / 24))"
    by (subst powr_realpow[symmetric], simp, subst powr_powr, simp)
  also have "\<dots> = ?q" by simp
  finally have "2 powr (1 / 24) \<le> ?q" .
  moreover have "0 < 2 powr (1 / 24 :: real)" by simp
  ultimately have "1 / ?q \<le> 1 / 2 powr (1 / 24)"
    by (intro divide_left_mono) simp_all
  then show ?thesis by (simp add: powr_minus_divide)
qed

lemma reference_bounds:
  fixes a :: real
  assumes "\<bar>a\<bar> \<le> 50"
  shows "427 \<le> round (440 * 2 powr (a / 1200)) \<and> round (440 * 2 powr (a / 1200)) \<le> 453"
proof -
  have "a / 1200 \<le> 1 / 24" "- (1 / 24) \<le> a / 1200" using assms by (simp_all add: abs_le_iff)
  then have up: "2 powr (a / 1200) \<le> 2 powr (1 / 24)"
    and lo: "2 powr (- (1 / 24)) \<le> 2 powr (a / 1200)"
    by (simp_all add: powr_mono)
  from up two_powr_24th_upper have "440 * 2 powr (a / 1200) + 1 / 2 < 454" by linarith
  then have "round (440 * 2 powr (a / 1200)) < 454"
    unfolding round_def by (simp add: floor_less_iff)
  moreover from lo two_powr_24th_lower have "427 \<le> 440 * 2 powr (a / 1200) + 1 / 2" by linarith
  then have "427 \<le> round (440 * 2 powr (a / 1200))"
    unfolding round_def by (simp add: le_floor_iff)
  ultimately show ?thesis by simp
qed

text \<open>
  Claim C10: the integer returned by detectTuningReference lies between 427 and 453
  inclusive, and so is positive: each valid chunk deviates by at most 50 cents, so does
  the average, and the default 440 lies in the range too.
\<close>

theorem tuning_reference_within_a_quarter_tone:
  "427 \<le> fst (detectTuningReference env b g) \<and> fst (detectTuningReference env b g) \<le> 453 \<and>
   0 < fst (detectTuningReference env b g)"
proof -
  let ?ds = "validChunkDeviations (amplitudeSpectrum env (Some (rawContext env))) b"
  have r: "fst (detectTuningReference env b g) =
           (if ?ds = [] then 440 else round (440 * 2 powr ((sum_list ?ds / real (length ?ds)) / 1200)))"
    by (simp add: detectTuningReference_def tuningReference_formula Let_def)
  have "427 \<le> fst (detectTuningReference env b g) \<and> fst (detectTuningReference env b g) \<le> 453"
  proof (cases "?ds = []")
    case True
    with r show ?thesis by simp
  next
    case False
    have "\<bar>sum_list ?ds / real (length ?ds)\<bar> \<le> 50"
      using validChunkDeviations_bounded False by (intro abs_average_bound)
    from reference_bounds[OF this] r False show ?thesis by simp
  qed
  then show ?thesis by simp
qed

text \<open>
  Claim C4: when at least one chunk is valid, detectTuningReference returns
  \<open>round(440 * 2^(avg / 1200))\<close>, where \<open>avg\<close> is the mean over exactly the valid chunks
  of \<open>(midi - round(midi)) * 100\<close> with \<open>midi = 69 + 12 log2(peakFreq / 440)\<close>.
\<close>

theorem tuning_reference_is_rounded_average:
  assumes "validChunkDeviations (amplitudeSpectrum env (Some (rawContext env))) b \<noteq> []"
  shows "fst (detectTuningReference env b g) =
         round (440 * 2 powr
           ((sum_list (validChunkDeviations (amplitudeSpectrum env (Some (rawContext env))) b) /
             real (length (validChunkDeviations (amplitudeSpectrum env (Some (rawContext env))) b)))
            / 1200))"
  using assms by (simp add: detectTuningReference_def tuningReference_formula Let_def)

lemma lowTone_peak: "findPeak lowTone 10 (Fin (- 1), - 1) = (Fin 1, 10)"
proof -
  have len: "length lowTone = 2048" by (simp add: lowTone_def)
  have at: "lowTone ! 10 = Fin 1" by (simp add: lowTone_def nth_append)
  have "findPeak lowTone 10 (Fin (- 1), - 1) = findPeak lowTone (Suc 10) (Fin 1, 10)"
    by (subst findPeak.simps) (simp add: len at)
  also have "\<dots> = (Fin 1, 10)"
  proof (rule findPeak_no_greater)
    fix j assume "2 * j < length lowTone"
    then have "j < length lowTone" by simp
    then have "lowTone ! j \<in> set lowTone" by (rule nth_mem)
    then have "lowTone ! j = Fin 0 \<or> lowTone ! j = Fin 1" by (auto simp add: lowTone_def)
    then show "\<not> js_gt (lowTone ! j) (Fin 1)" by auto
  qed
  finally show ?thesis .
qed

lemma chunkStarts_4096: "chunkStarts 4096 = [0]"
proof -
  have "[0..<50] = 0 # 1 # [2..<50]" by (simp add: upt_conv_Cons)
  then show ?thesis by (simp add: chunkStarts_def del: upt_Suc)
qed

theorem tuning_reference_is_rounded_average_witness:
  "validChunkDeviations (amplitudeSpectrum toneEnv (Some (rawContext toneEnv)))
      \<lparr>channelData = replicate 4096 (1 / 2), sampleRate = 44100\<rparr>
     = [centsDeviation (10 * (44100 / 4096))] \<and>
   fst (detectTuningReference toneEnv \<lparr>channelData = replicate 4096 (1 / 2), sampleRate = 44100\<rparr>
          \<lparr>audioContext = None\<rparr>)
     = round (440 * 2 powr (centsDeviation (10 * (44100 / 4096)) / 1200))"
proof -
  have ds: "validChunkDeviations (amplitudeSpectrum toneEnv (Some (rawContext toneEnv)))
      \<lparr>channelData = replicate 4096 (1 / 2), sampleRate = 44100\<rparr>
     = [centsDeviation (10 * (44100 / 4096))]"
    by (simp add: validChunkDeviations_def chunkStarts_4096 toneEnv_def spectrumDeviations_def
        lowTone_peak)
  then have ne: "validChunkDeviations (amplitudeSpectrum toneEnv (Some (rawContext toneEnv)))
      \<lparr>channelData = replicate 4096 (1 / 2), sampleRate = 44100\<rparr> \<noteq> []" by simp
  from tuning_reference_is_rounded_average[OF ne, of "\<lparr>audioContext = None\<rparr>"] ds
  show ?thesis by simp
qed

section \<open>The methods on the store\<close>

lemma keepsAllocated_refl: "keepsAllocated s s"
  by (simp add: keepsAllocated_def)

lemma keepsAllocated_trans:
  "keepsAllocated s s1 \<Longrightarrow> keepsAllocated s1 s2 \<Longrightarrow> keepsAllocated s s2"
  by (auto simp add: keepsAllocated_def)

lemma keepsAllocated_cell:
  "keepsAllocated s s' \<Longrightarrow> a < nextFree s \<Longrightarrow> cells s' a = cells s a"
  by (simp add: keepsAllocated_def)

lemma keepsAllocated_serviceFields:
  "keepsAllocated s s' \<Longrightarrow> serviceFields this s \<Longrightarrow> serviceFields this s'"
  by (auto simp add: keepsAllocated_def serviceFields_def)

text \<open>Filling the indices \<open>0, \<dots>, k - 1\<close> in order.\<close>

lemma fill_upt:
  "k \<le> length ys \<Longrightarrow>
   foldl (\<lambda>ys i. ys[i := f i]) ys [0..<k] = map f [0..<k] @ drop k ys"
proof (induction k)
  case 0
  then show ?case by simp
next
  case (Suc k)
  then have k: "k < length ys" by simp
  have "foldl (\<lambda>ys i. ys[i := f i]) ys [0..<Suc k]
        = (map f [0..<k] @ drop k ys)[k := f k]"
    using Suc by simp
  also have "\<dots> = map f [0..<k] @ (drop k ys)[0 := f k]"
    by (simp add: list_update_append)
  also have "(drop k ys)[0 := f k] = f k # drop (Suc k) ys"
    using k by (simp add: Cons_nth_drop_Suc[symmetric])
  finally show ?case by simp
qed

lemma js_get_map: "js_get (map f xs) i = map_option f (js_get xs i)"
proof (cases "0 \<le> i \<and> i < int (length xs)")
  case True
  then have "nat i < length xs" by linarith
  with True show ?thesis by (simp add: js_get_def)
next
  case False
  then show ?thesis by (auto simp add: js_get_def)
qed

lemma rotateFill_cells:
  assumes "cells s arr = Some (Numbers xs)" and "cells s rot = Some (Numbers ys)"
    and "rot \<noteq> arr" and "\<forall>i \<in> set ks. i < length ys"
  shows "rotateFill arr rot n len ks s =
         s\<lparr>cells := (cells s)(rot := Some (Numbers
            (foldl (\<lambda>ys i. ys[i := (case js_get xs (js_rem (int i - n + int len) (int len)) of
                                     Some e \<Rightarrow> e | None \<Rightarrow> None)]) ys ks)))\<rparr>"
  using assms
proof (induction ks arbitrary: s ys)
  case Nil
  have "(cells s)(rot := Some (Numbers ys)) = cells s"
    using Nil.prems(2) by (rule fun_upd_idem)
  then show ?case by simp
next
  case (Cons i ks)
  let ?v = "case js_get xs (js_rem (int i - n + int len) (int len)) of Some e \<Rightarrow> e | None \<Rightarrow> None"
  let ?s1 = "s\<lparr>cells := (cells s)(rot := Some (Numbers (ys[i := ?v])))\<rparr>"
  have i: "i < length ys" using Cons.prems(4) by simp
  have rd: "readNumber s arr (js_rem (int i - n + int len) (int len)) = ?v"
    by (simp add: readNumber_def Cons.prems(1))
  have wr: "writeNumber s rot i ?v = ?s1"
    using i by (simp add: writeNumber_def Cons.prems(2))
  have step: "rotateFill arr rot n len (i # ks) s = rotateFill arr rot n len ks ?s1"
    by (simp add: rd wr)
  have a: "cells ?s1 arr = Some (Numbers xs)" using Cons.prems(1,3) by simp
  have r: "cells ?s1 rot = Some (Numbers (ys[i := ?v]))" by simp
  have l: "\<forall>j \<in> set ks. j < length (ys[i := ?v])" using Cons.prems(4) by simp
  have "rotateFill arr rot n len ks ?s1
        = ?s1\<lparr>cells := (cells ?s1)(rot := Some (Numbers
            (foldl (\<lambda>ys i. ys[i := (case js_get xs (js_rem (int i - n + int len) (int len)) of
                                     Some e \<Rightarrow> e | None \<Rightarrow> None)]) (ys[i := ?v]) ks)))\<rparr>"
    by (rule Cons.IH[OF a r Cons.prems(3) l])
  also have "\<dots> = s\<lparr>cells := (cells s)(rot := Some (Numbers
            (foldl (\<lambda>ys i. ys[i := (case js_get xs (js_rem (int i - n + int len) (int len)) of
                                     Some e \<Rightarrow> e | None \<Rightarrow> None)]) ys (i # ks))))\<rparr>"
    by simp
  finally show ?case unfolding step .
qed

lemma rotate_st_spec:
  assumes "cells s arr = Some (Numbers (map Some P))" and "arr < nextFree s"
  shows "rotate_st arr n s =
         (nextFree s,
          s\<lparr>cells := (cells s)(nextFree s := Some (Numbers (rotate_js P n))),
            nextFree := Suc (nextFree s)\<rparr>)"
proof -
  let ?len = "length P"
  let ?s1 = "s\<lparr>cells := (cells s)(nextFree s := Some (Numbers (replicate ?len None))),
               nextFree := Suc (nextFree s)\<rparr>"
  have len: "arrayLength s arr = ?len" by (simp add: arrayLength_def assms(1))
  have al: "alloc (Numbers (replicate ?len None)) s = (nextFree s, ?s1)"
    by (simp add: alloc_def)
  have ne: "nextFree s \<noteq> arr" using assms(2) by simp
  have a: "cells ?s1 arr = Some (Numbers (map Some P))" using assms ne by simp
  have r: "cells ?s1 (nextFree s) = Some (Numbers (replicate ?len None))" by simp
  have b: "\<forall>i \<in> set [0..<?len]. i < length (replicate ?len (None :: jsnum option))" by simp
  have g: "(case js_get (map Some P) k of Some e \<Rightarrow> e | None \<Rightarrow> None) = js_get P k" for k
    by (simp add: js_get_map split: option.splits)
  have fill: "foldl (\<lambda>ys i. ys[i := js_get P (js_rem (int i - n + int ?len) (int ?len))])
                (replicate ?len None) [0..<?len] = rotate_js P n"
    by (subst fill_upt) (simp_all add: rotate_js_def Let_def)
  have "rotateFill arr (nextFree s) n ?len [0..<?len] ?s1
        = ?s1\<lparr>cells := (cells ?s1)(nextFree s := Some (Numbers (rotate_js P n)))\<rparr>"
    unfolding rotateFill_cells[OF a r ne b] g fill ..
  then show ?thesis
    unfolding rotate_st_def Let_def len al by simp
qed

lemma keyLoop_st_refine:
  assumes "cells s profile = Some (Numbers (map Some P))"
    and "cells s keys = Some (Strings KEYS)"
    and "cells s avg = Some (Numbers C)"
    and "profile < nextFree s" and "keys < nextFree s" and "avg < nextFree s"
    and "\<forall>i \<in> set ks. i < 12"
  shows "fst (keyLoop_st profile keys mode avg ks st s) = keyLoop P mode C ks st \<and>
         keepsAllocated s (snd (keyLoop_st profile keys mode avg ks st s))"
  using assms
proof (induction ks arbitrary: st s)
  case Nil
  then show ?case by (simp add: keepsAllocated_refl)
next
  case (Cons i ks)
  obtain best key where st: "st = (best, key)" by (cases st)
  let ?s1 = "s\<lparr>cells := (cells s)(nextFree s := Some (Numbers (rotate_js P (int i)))),
               nextFree := Suc (nextFree s)\<rparr>"
  have rot: "rotate_st profile (int i) s = (nextFree s, ?s1)"
    using Cons.prems(1,4) by (rule rotate_st_spec)
  have keep1: "keepsAllocated s ?s1" by (simp add: keepsAllocated_def)
  have p1: "cells ?s1 profile = Some (Numbers (map Some P))" using Cons.prems(1,4) by simp
  have k1: "cells ?s1 keys = Some (Strings KEYS)" using Cons.prems(2,5) by simp
  have a1: "cells ?s1 avg = Some (Numbers C)" using Cons.prems(3,6) by simp
  have lt: "profile < nextFree ?s1" "keys < nextFree ?s1" "avg < nextFree ?s1"
    using Cons.prems(4,5,6) by simp_all
  have rest: "\<forall>j \<in> set ks. j < 12" using Cons.prems(7) by simp
  have i: "i < 12" using Cons.prems(7) by simp
  have corr: "correlate_st avg (nextFree s) ?s1 = correlate C (rotate_js P (int i))"
    using Cons.prems(3,6) by (simp add: correlate_st_def numbersAt_def)
  have name: "readKey ?s1 keys i = KEYS ! i"
    using k1 i by (simp add: readKey_def KEYS_def)
  note IH = Cons.IH[OF p1 k1 a1 lt rest]
  show ?case
  proof (cases "js_gt (correlate C (rotate_js P (int i))) best")
    case True
    have step: "keyLoop_st profile keys mode avg (i # ks) st s
                = keyLoop_st profile keys mode avg ks
                    (correlate C (rotate_js P (int i)), KEYS ! i @ '' '' @ mode) ?s1"
      using True by (simp add: st rot corr name)
    from IH[of "(correlate C (rotate_js P (int i)), KEYS ! i @ '' '' @ mode)"] keep1 True
    show ?thesis
      unfolding step by (auto simp add: st Let_def intro: keepsAllocated_trans)
  next
    case False
    have step: "keyLoop_st profile keys mode avg (i # ks) st s
                = keyLoop_st profile keys mode avg ks (best, key) ?s1"
      using False by (simp add: st rot corr)
    from IH[of "(best, key)"] keep1 False
    show ?thesis
      unfolding step by (auto simp add: st Let_def intro: keepsAllocated_trans)
  qed
qed

lemma selectKey_st_refine:
  assumes "serviceFields this s" and "cells s avg = Some (Numbers (map Some A))"
    and "avg < nextFree s"
  shows "fst (selectKey_st this avg s) = selectKey A \<and>
         keepsAllocated s (snd (selectKey_st this avg s))"
proof -
  obtain st1 s1 where l1: "keyLoop_st (majorProfile this) (keyNames this) ''Major'' avg [0..<12]
             (NegInf, '''') s = (st1, s1)"
    by (cases "keyLoop_st (majorProfile this) (keyNames this) ''Major'' avg [0..<12] (NegInf, '''') s")
  obtain st2 s2 where l2: "keyLoop_st (minorProfile this) (keyNames this) ''Minor'' avg [0..<12]
             st1 s1 = (st2, s2)"
    by (cases "keyLoop_st (minorProfile this) (keyNames this) ''Minor'' avg [0..<12] st1 s1")
  have idx: "\<forall>i \<in> set [0..<12]. i < (12::nat)" by simp
  from assms(1) have f:
    "cells s (majorProfile this) = Some (Numbers (map Some MAJOR_PROFILE))"
    "cells s (minorProfile this) = Some (Numbers (map Some MINOR_PROFILE))"
    "cells s (keyNames this) = Some (Strings KEYS)"
    "majorProfile this < nextFree s" "minorProfile this < nextFree s" "keyNames this < nextFree s"
    by (simp_all add: serviceFields_def)
  from keyLoop_st_refine[OF f(1) f(3) assms(2) f(4) f(6) assms(3) idx, of "''Major''" "(NegInf, '''')"]
  have r1: "st1 = keyLoop MAJOR_PROFILE ''Major'' (map Some A) [0..<12] (NegInf, '''')"
    and k1: "keepsAllocated s s1"
    by (simp_all add: l1)
  have f1:
    "cells s1 (minorProfile this) = Some (Numbers (map Some MINOR_PROFILE))"
    "cells s1 (keyNames this) = Some (Strings KEYS)"
    "cells s1 avg = Some (Numbers (map Some A))"
    using k1 f assms(2,3) by (simp_all add: keepsAllocated_cell)
  have lt1: "minorProfile this < nextFree s1" "keyNames this < nextFree s1" "avg < nextFree s1"
    using k1 f assms(3) by (auto simp add: keepsAllocated_def)
  from keyLoop_st_refine[OF f1(1) f1(2) f1(3) lt1 idx, of "''Minor''" st1]
  have r2: "st2 = keyLoop MINOR_PROFILE ''Minor'' (map Some A) [0..<12] st1"
    and k2: "keepsAllocated s1 s2"
    by (simp_all add: l2)
  have "selectKey_st this avg s = (snd st2, s2)"
    by (simp add: selectKey_st_def l1 l2)
  then show ?thesis
    using r1 r2 keepsAllocated_trans[OF k1 k2] by (simp add: selectKey_def)
qed

lemma stateless_chroma:
  assumes "statelessPerCall lib" and "audioContext m = ctx"
  shows "fst (chromaCall lib m c) = fst (chromaCall lib \<lparr>audioContext = ctx, hidden = h\<rparr> c)"
    and "audioContext (snd (chromaCall lib m c)) = ctx"
  using assms by (auto simp add: statelessPerCall_def)

lemma stateless_spectrum:
  assumes "statelessPerCall lib" and "audioContext m = ctx"
  shows "fst (spectrumCall lib m c) = fst (spectrumCall lib \<lparr>audioContext = ctx, hidden = h\<rparr> c)"
    and "audioContext (snd (spectrumCall lib m c)) = ctx"
  using assms by (auto simp add: statelessPerCall_def)

text \<open>
  With a library that is stateless per call the two loops compute what the loops of the
  first model compute
  from the library's features, and leave the audio context as it was.
\<close>

lemma keyFrames_st_refine:
  assumes lib: "statelessPerCall lib" and ctx: "audioContext m = ctx"
  shows "fst (keyFrames_st lib xs e i st m) =
           keyFrames (\<lambda>c. fst (chromaCall lib \<lparr>audioContext = ctx, hidden = h\<rparr> c)) xs e i st \<and>
         audioContext (snd (keyFrames_st lib xs e i st m)) = ctx"
  using ctx
proof (induction "nat \<lceil>e - 4096 - real_of_int i\<rceil>" arbitrary: i st m rule: less_induct)
  case less
  obtain total frames where st: "st = (total, frames)" by (cases st)
  let ?ex = "\<lambda>c. fst (chromaCall lib \<lparr>audioContext = ctx, hidden = h\<rparr> c)"
  show ?case
  proof (cases "real_of_int i < e - 4096 \<and> \<not> length (slice xs i (i + 4096)) < 4096")
    case False
    then show ?thesis
      using less.prems by (auto simp add: st keyFrames_st.simps keyFrames.simps Let_def)
  next
    case True
    let ?chunk = "slice xs i (i + 4096)"
    obtain features m1 where call: "chromaCall lib m ?chunk = (features, m1)"
      by (cases "chromaCall lib m ?chunk")
    have f: "features = ?ex ?chunk"
      using stateless_chroma(1)[OF lib less.prems, of ?chunk h] call by simp
    have c1: "audioContext m1 = ctx"
      using stateless_chroma(2)[OF lib less.prems, of ?chunk] call by simp
    let ?st' = "case features of None \<Rightarrow> (total, frames)
                | Some chroma \<Rightarrow>
                    (map (\<lambda>k. js_add (total ! k) (num_at chroma (int k))) [0..<12], Suc frames)"
    have l: "keyFrames_st lib xs e i (total, frames) m = keyFrames_st lib xs e (i + 8192) ?st' m1"
      using True by (subst keyFrames_st.simps) (simp add: call Let_def del: upt_Suc)
    have r: "keyFrames ?ex xs e i (total, frames) = keyFrames ?ex xs e (i + 8192) ?st'"
      using True by (subst keyFrames.simps) (simp add: f Let_def del: upt_Suc)
    have decr: "nat \<lceil>e - 4096 - real_of_int (i + 8192)\<rceil> < nat \<lceil>e - 4096 - real_of_int i\<rceil>"
      using True by (auto simp add: nat_less_iff ceiling_less_iff) linarith+
    from less.hyps[OF decr c1, of ?st'] show ?thesis
      unfolding st l r .
  qed
qed

lemma tuningLoop_st_refine:
  assumes lib: "statelessPerCall lib" and ctx: "audioContext m = ctx"
  shows "fst (tuningLoop_st lib xs bs stp i st m) =
           tuningLoop (\<lambda>c. fst (spectrumCall lib \<lparr>audioContext = ctx, hidden = h\<rparr> c)) xs bs stp i st \<and>
         audioContext (snd (tuningLoop_st lib xs bs stp i st m)) = ctx"
  using ctx
proof (induction "50 - i" arbitrary: i st m rule: less_induct)
  case less
  obtain total valid where st: "st = (total, valid)" by (cases st)
  let ?ex = "\<lambda>c. fst (spectrumCall lib \<lparr>audioContext = ctx, hidden = h\<rparr> c)"
  show ?case
  proof (cases "i < 50 \<and> \<not> i * stp + 4096 > length xs")
    case False
    then show ?thesis
      using less.prems by (auto simp add: st tuningLoop_st.simps tuningLoop.simps Let_def)
  next
    case True
    let ?chunk = "slice xs (int (i * stp)) (int (i * stp) + 4096)"
    obtain raw m1 where call: "spectrumCall lib m ?chunk = (raw, m1)"
      by (cases "spectrumCall lib m ?chunk")
    have f: "raw = ?ex ?chunk"
      using stateless_spectrum(1)[OF lib less.prems, of ?chunk h] call by simp
    have c1: "audioContext m1 = ctx"
      using stateless_spectrum(2)[OF lib less.prems, of ?chunk] call by simp
    let ?st' = "case raw of None \<Rightarrow> (total, valid)
                | Some spectrum \<Rightarrow>
                    (case chunkDeviation bs spectrum of None \<Rightarrow> (total, valid)
                     | Some deviation \<Rightarrow> (total + deviation, Suc valid))"
    have l: "tuningLoop_st lib xs bs stp i (total, valid) m
             = tuningLoop_st lib xs bs stp (Suc i) ?st' m1"
      using True call by (subst tuningLoop_st.simps) (simp add: Let_def)
    have r: "tuningLoop ?ex xs bs stp i (total, valid) = tuningLoop ?ex xs bs stp (Suc i) ?st'"
      using True f by (subst tuningLoop.simps) (simp add: Let_def)
    have decr: "50 - Suc i < 50 - i" using True by arith
    from less.hyps[OF decr c1, of ?st'] show ?thesis
      unfolding st l r .
  qed
qed

text \<open>Each pass of a key loop allocates one array, the rotated profile.\<close>

lemma keyLoop_st_allocates:
  assumes "cells s profile = Some (Numbers (map Some P))" and "profile < nextFree s"
  shows "nextFree (snd (keyLoop_st profile keys mode avg ks st s)) = nextFree s + length ks \<and>
         keepsAllocated s (snd (keyLoop_st profile keys mode avg ks st s))"
  using assms
proof (induction ks arbitrary: st s)
  case Nil
  then show ?case by (simp add: keepsAllocated_refl)
next
  case (Cons i ks)
  obtain best key where st: "st = (best, key)" by (cases st)
  let ?s1 = "s\<lparr>cells := (cells s)(nextFree s := Some (Numbers (rotate_js P (int i)))),
               nextFree := Suc (nextFree s)\<rparr>"
  have rot: "rotate_st profile (int i) s = (nextFree s, ?s1)"
    using Cons.prems by (rule rotate_st_spec)
  have keep1: "keepsAllocated s ?s1" by (simp add: keepsAllocated_def)
  have p1: "cells ?s1 profile = Some (Numbers (map Some P))" using Cons.prems by simp
  have lt: "profile < nextFree ?s1" using Cons.prems by simp
  note IH = Cons.IH[OF p1 lt]
  show ?case
    using IH[of "(correlate_st avg (nextFree s) ?s1, readKey ?s1 keys i @ '' '' @ mode)"]
      IH[of "(best, key)"] keep1
    by (auto simp add: st rot Let_def intro: keepsAllocated_trans)
qed

lemma selectKey_st_allocates:
  assumes "serviceFields this s"
  shows "nextFree (snd (selectKey_st this avg s)) = nextFree s + 24"
proof -
  obtain st1 s1 where l1: "keyLoop_st (majorProfile this) (keyNames this) ''Major'' avg [0..<12]
             (NegInf, '''') s = (st1, s1)"
    by (cases "keyLoop_st (majorProfile this) (keyNames this) ''Major'' avg [0..<12] (NegInf, '''') s")
  obtain st2 s2 where l2: "keyLoop_st (minorProfile this) (keyNames this) ''Minor'' avg [0..<12]
             st1 s1 = (st2, s2)"
    by (cases "keyLoop_st (minorProfile this) (keyNames this) ''Minor'' avg [0..<12] st1 s1")
  from assms have f:
    "cells s (majorProfile this) = Some (Numbers (map Some MAJOR_PROFILE))"
    "cells s (minorProfile this) = Some (Numbers (map Some MINOR_PROFILE))"
    "majorProfile this < nextFree s" "minorProfile this < nextFree s"
    by (simp_all add: serviceFields_def)
  from keyLoop_st_allocates[OF f(1) f(3), of "keyNames this" "''Major''" avg "[0..<12]" "(NegInf, '''')"]
  have n1: "nextFree s1 = nextFree s + 12" and k1: "keepsAllocated s s1"
    by (simp_all add: l1)
  have f1: "cells s1 (minorProfile this) = Some (Numbers (map Some MINOR_PROFILE))"
    using k1 f by (simp add: keepsAllocated_cell)
  have lt1: "minorProfile this < nextFree s1" using n1 f by simp
  from keyLoop_st_allocates[OF f1 lt1, of "keyNames this" "''Minor''" avg "[0..<12]" st1]
  have n2: "nextFree s2 = nextFree s1 + 12"
    by (simp_all add: l2)
  have "selectKey_st this avg s = (snd st2, s2)"
    by (simp add: selectKey_st_def l1 l2)
  then show ?thesis using n1 n2 by simp
qed

text \<open>
  The two methods on the store return what the methods of the first model return, from
  any state of the store in which the fields hold their initial arrays and from any
  state of a library that is stateless per call.
\<close>

lemma detectTuningReference_st_refine:
  assumes lib: "statelessPerCall lib"
  shows "fst (detectTuningReference_st lib this b (s, m))
           = fst (detectTuningReference (environmentOf lib h) b g)"
    and "fst (snd (detectTuningReference_st lib this b (s, m))) = s"
    and "audioContext (snd (snd (detectTuningReference_st lib this b (s, m)))) = Some (toneContext lib)"
proof -
  let ?m0 = "m\<lparr>audioContext := Some (toneContext lib)\<rparr>"
  let ?ex = "\<lambda>c. fst (spectrumCall lib \<lparr>audioContext = Some (toneContext lib), hidden = h\<rparr> c)"
  let ?loop = "tuningLoop_st lib (channelData b) (sampleRate b / 4096) (length (channelData b) div 50)
                 0 (0, 0) ?m0"
  obtain total valid m1 where run: "?loop = ((total, valid), m1)"
    by (cases ?loop) auto
  have ctx: "audioContext ?m0 = Some (toneContext lib)" by simp
  from tuningLoop_st_refine[OF lib ctx, of "channelData b" "sampleRate b / 4096"
         "length (channelData b) div 50" 0 "(0, 0)" h]
  have pure: "tuningLoop ?ex (channelData b) (sampleRate b / 4096) (length (channelData b) div 50)
                0 (0, 0) = (total, valid)"
    and c1: "audioContext m1 = Some (toneContext lib)"
    by (simp_all add: run)
  have ex: "amplitudeSpectrum (environmentOf lib h) (Some (toneContext lib)) = ?ex"
    by (simp add: environmentOf_def)
  show "fst (detectTuningReference_st lib this b (s, m))
           = fst (detectTuningReference (environmentOf lib h) b g)"
    by (simp add: detectTuningReference_st_def detectTuningReference_def tuningReference_def
          Let_def run pure ex environmentOf_def)
  show "fst (snd (detectTuningReference_st lib this b (s, m))) = s"
    by (simp add: detectTuningReference_st_def Let_def run)
  show "audioContext (snd (snd (detectTuningReference_st lib this b (s, m)))) = Some (toneContext lib)"
    by (simp add: detectTuningReference_st_def Let_def run c1)
qed

lemma detectKey_st_refine:
  assumes lib: "statelessPerCall lib" and init: "serviceFields this s"
  shows "fst (detectKey_st lib this b (s, m)) = fst (detectKey (environmentOf lib h) b g)"
    and "keepsAllocated s (fst (snd (detectKey_st lib this b (s, m))))"
    and "audioContext (snd (snd (detectKey_st lib this b (s, m)))) = Some (toneContext lib)"
proof -
  let ?m0 = "m\<lparr>audioContext := Some (toneContext lib)\<rparr>"
  let ?ex = "\<lambda>c. fst (chromaCall lib \<lparr>audioContext = Some (toneContext lib), hidden = h\<rparr> c)"
  let ?dur = "min 30 (duration b)"
  let ?start = "max 0 \<lfloor>(duration b / 2 - ?dur / 2) * sampleRate b\<rfloor>"
  let ?end = "min (real_of_int ?start + ?dur * sampleRate b) (real (buf_length b))"
  let ?loop = "keyFrames_st lib (channelData b) ?end ?start (replicate 12 (Fin 0), 0) ?m0"
  obtain total frames m1 where run: "?loop = ((total, frames), m1)"
    by (cases ?loop) auto
  have ctx: "audioContext ?m0 = Some (toneContext lib)" by simp
  from keyFrames_st_refine[OF lib ctx, of "channelData b" ?end ?start "(replicate 12 (Fin 0), 0)" h]
  have "keyFrames ?ex (channelData b) ?end ?start (replicate 12 (Fin 0), 0) = (total, frames)"
    and c1: "audioContext m1 = Some (toneContext lib)"
    by (simp_all add: run)
  then have acc: "accumulateChroma ?ex b = (total, frames)"
    by (simp add: accumulateChroma_def Let_def)
  have ex: "chromaFeature (environmentOf lib h) (Some (toneContext lib)) = ?ex"
    by (simp add: environmentOf_def)
  have pure: "fst (detectKey (environmentOf lib h) b g)
              = (if frames = 0 then ''Unknown''
                 else selectKey (map (\<lambda>val. js_div val (Fin (real frames))) total))"
    by (simp add: detectKey_def keyEstimate_def averageChroma_def Let_def acc ex environmentOf_def)
  have "\<exists>s2. detectKey_st lib this b (s, m) = (fst (detectKey (environmentOf lib h) b g), s2, m1) \<and>
             keepsAllocated s s2"
  proof (cases "frames = 0")
    case True
    then have "detectKey_st lib this b (s, m) = (''Unknown'', s, m1)"
      by (simp add: detectKey_st_def Let_def run)
    then show ?thesis
      using True by (simp add: pure keepsAllocated_refl)
  next
    case False
    let ?A = "map (\<lambda>val. js_div val (Fin (real frames))) total"
    let ?s1 = "s\<lparr>cells := (cells s)(nextFree s := Some (Numbers
                   (map (\<lambda>val. Some (js_div val (Fin (real frames)))) total))),
                 nextFree := Suc (nextFree s)\<rparr>"
    have al: "alloc (Numbers (map (\<lambda>val. Some (js_div val (Fin (real frames)))) total)) s
              = (nextFree s, ?s1)"
      by (simp add: alloc_def)
    have keep1: "keepsAllocated s ?s1" by (simp add: keepsAllocated_def)
    have init1: "serviceFields this ?s1"
      by (rule keepsAllocated_serviceFields[OF keep1 init])
    have a1: "cells ?s1 (nextFree s) = Some (Numbers (map Some ?A))" by (simp add: comp_def)
    have lt1: "nextFree s < nextFree ?s1" by simp
    obtain key s2 where sel: "selectKey_st this (nextFree s) ?s1 = (key, s2)"
      by (cases "selectKey_st this (nextFree s) ?s1")
    have "fst (selectKey_st this (nextFree s) ?s1) = selectKey ?A \<and>
          keepsAllocated ?s1 (snd (selectKey_st this (nextFree s) ?s1))"
      by (rule selectKey_st_refine[OF init1 a1 lt1])
    then have k: "key = selectKey ?A" and keep2: "keepsAllocated ?s1 s2"
      unfolding sel fst_conv snd_conv by blast+
    have "detectKey_st lib this b (s, m) = (key, s2, m1)"
      using False by (simp add: detectKey_st_def Let_def run al sel)
    then show ?thesis
      using False keepsAllocated_trans[OF keep1 keep2] by (simp add: pure k)
  qed
  then obtain s2 where
    r: "detectKey_st lib this b (s, m) = (fst (detectKey (environmentOf lib h) b g), s2, m1)"
    and keep: "keepsAllocated s s2"
    by blast
  show "fst (detectKey_st lib this b (s, m)) = fst (detectKey (environmentOf lib h) b g)"
    by (simp add: r)
  show "keepsAllocated s (fst (snd (detectKey_st lib this b (s, m))))"
    by (simp add: r keep)
  show "audioContext (snd (snd (detectKey_st lib this b (s, m)))) = Some (toneContext lib)"
    by (simp add: r c1)
qed

section \<open>Determinism\<close>

lemma averageChroma_major_frame:
  "averageChroma (\<lambda>chunk. Some (map Some MAJOR_PROFILE))
     \<lparr>channelData = replicate 8192 0, sampleRate = 44100\<rparr> = MAJOR_PROFILE"
  unfolding averageChroma_def accumulateChroma_one_frame
  by (simp add: upt_12 num_at_def js_get_def MAJOR_PROFILE_def)

lemma countingLibrary_key: "fst (detectKey (environmentOf countingLibrary h) oneFrame g) = ''C Major''"
proof -
  have ex: "chromaFeature (environmentOf countingLibrary h)
              (Some (rawContext (environmentOf countingLibrary h)))
            = (\<lambda>chunk. Some (map Some MAJOR_PROFILE))"
    by (simp add: environmentOf_def countingLibrary_def)
  have frames: "snd (accumulateChroma (\<lambda>chunk. Some (map Some MAJOR_PROFILE))
                  \<lparr>channelData = replicate 8192 0, sampleRate = 44100\<rparr>) \<noteq> 0"
    unfolding accumulateChroma_one_frame by simp
  show ?thesis
    using frames
    by (simp add: detectKey_def Let_def ex keyEstimate_def oneFrame_def averageChroma_major_frame
          selectKey_major_profile)
qed

text \<open>A call of detectKey on that buffer makes one call of the library and 25 arrays.\<close>

lemma countingLibrary_one_frame:
  "\<exists>acc. keyFrames_st countingLibrary (replicate 8192 0) 8192 0 (replicate 12 (Fin 0), 0)
           \<lparr>audioContext = Some 0, hidden = n\<rparr>
         = ((acc, Suc 0), \<lparr>audioContext = Some 0, hidden = Suc n\<rparr>)"
proof -
  let ?m1 = "\<lparr>audioContext = Some (0::nat), hidden = Suc n\<rparr>"
  let ?acc = "map (\<lambda>k. js_add (replicate 12 (Fin 0) ! k) (num_at (map Some MAJOR_PROFILE) (int k)))
                [0..<12]"
  have "keyFrames_st countingLibrary (replicate 8192 0) 8192 0 (replicate 12 (Fin 0), 0)
           \<lparr>audioContext = Some 0, hidden = n\<rparr>
        = keyFrames_st countingLibrary (replicate 8192 0) 8192 8192 (?acc, Suc 0) ?m1"
    by (subst keyFrames_st.simps) (simp add: slice_def countingLibrary_def del: upt_Suc)
  also have "\<dots> = ((?acc, Suc 0), ?m1)"
    by (subst keyFrames_st.simps) simp
  finally show ?thesis by blast
qed

lemma countingLibrary_detectKey_effects:
  assumes "serviceFields this s"
  shows "hidden (snd (snd (detectKey_st countingLibrary this oneFrame (s, m)))) = Suc (hidden m)"
    and "nextFree (fst (snd (detectKey_st countingLibrary this oneFrame (s, m)))) = nextFree s + 25"
proof -
  obtain acc where run:
    "keyFrames_st countingLibrary (replicate 8192 0) 8192 0 (replicate 12 (Fin 0), 0)
       \<lparr>audioContext = Some 0, hidden = hidden m\<rparr>
     = ((acc, Suc 0), \<lparr>audioContext = Some 0, hidden = Suc (hidden m)\<rparr>)"
    using countingLibrary_one_frame[of "hidden m"] by blast
  have m0: "m\<lparr>audioContext := Some (toneContext countingLibrary)\<rparr>
            = \<lparr>audioContext = Some 0, hidden = hidden m\<rparr>"
    by (simp add: countingLibrary_def)
  let ?s1 = "s\<lparr>cells := (cells s)(nextFree s := Some (Numbers
                 (map (\<lambda>val. Some (js_div val (Fin 1))) acc))),
               nextFree := Suc (nextFree s)\<rparr>"
  have al: "alloc (Numbers (map (\<lambda>val. Some (js_div val (Fin 1))) acc)) s
            = (nextFree s, ?s1)"
    by (simp add: alloc_def)
  have keep1: "keepsAllocated s ?s1" by (simp add: keepsAllocated_def)
  have init1: "serviceFields this ?s1"
    by (rule keepsAllocated_serviceFields[OF keep1 assms])
  obtain key s2 where sel: "selectKey_st this (nextFree s) ?s1 = (key, s2)"
    by (cases "selectKey_st this (nextFree s) ?s1")
  have n2: "nextFree s2 = nextFree ?s1 + 24"
    using selectKey_st_allocates[OF init1, of "nextFree s"] unfolding sel snd_conv .
  have r: "detectKey_st countingLibrary this oneFrame (s, m)
           = (key, s2, \<lparr>audioContext = Some 0, hidden = Suc (hidden m)\<rparr>)"
    unfolding detectKey_st_def Let_def prod.case m0
    by (simp add: oneFrame_def duration_def buf_length_def run al sel)
  show "hidden (snd (snd (detectKey_st countingLibrary this oneFrame (s, m)))) = Suc (hidden m)"
    by (simp add: r)
  show "nextFree (fst (snd (detectKey_st countingLibrary this oneFrame (s, m)))) = nextFree s + 25"
    using n2 by (simp add: r)
qed

text \<open>
  The assumption on the library is needed: with a library whose features depend on its
  hidden state, a second call on the same buffer can return another key.
\<close>

lemma stateful_library_changes_later_result:
  "\<not> statelessPerCall warmingLibrary \<and>
   fst (detectKey_st warmingLibrary theService oneFrame (freshStore, idle)) = ''Unknown'' \<and>
   fst (detectKey_st warmingLibrary theService oneFrame
          (snd (detectKey_st warmingLibrary theService oneFrame (freshStore, idle)))) = ''C Major''"
proof -
  let ?m1 = "\<lparr>audioContext = Some (0::nat), hidden = Suc 0\<rparr>"
  let ?m2 = "\<lparr>audioContext = Some (0::nat), hidden = Suc (Suc 0)\<rparr>"
  define acc where
    "acc = map (\<lambda>k. js_add (replicate 12 (Fin 0) ! k) (num_at (map Some MAJOR_PROFILE) (int k)))
             [0..<12]"
  have not: "\<not> statelessPerCall warmingLibrary"
  proof
    assume "statelessPerCall warmingLibrary"
    then have "fst (chromaCall warmingLibrary \<lparr>audioContext = None, hidden = 0\<rparr> [])
               = fst (chromaCall warmingLibrary \<lparr>audioContext = None, hidden = Suc 0\<rparr> [])"
      unfolding statelessPerCall_def by simp
    then show False by (simp add: warmingLibrary_def)
  qed
  have "keyFrames_st warmingLibrary (replicate 8192 0) 8192 0 (replicate 12 (Fin 0), 0)
           \<lparr>audioContext = Some 0, hidden = 0\<rparr>
        = keyFrames_st warmingLibrary (replicate 8192 0) 8192 8192 (replicate 12 (Fin 0), 0) ?m1"
    by (subst keyFrames_st.simps) (simp add: slice_def warmingLibrary_def del: upt_Suc)
  also have "\<dots> = ((replicate 12 (Fin 0), 0), ?m1)"
    by (subst keyFrames_st.simps) simp
  finally have run1:
    "keyFrames_st warmingLibrary (replicate 8192 0) 8192 0 (replicate 12 (Fin 0), 0)
       \<lparr>audioContext = Some 0, hidden = 0\<rparr> = ((replicate 12 (Fin 0), 0), ?m1)" .
  have first: "detectKey_st warmingLibrary theService oneFrame (freshStore, idle)
               = (''Unknown'', freshStore, ?m1)"
    unfolding detectKey_st_def Let_def prod.case
    by (simp add: oneFrame_def duration_def buf_length_def idle_def warmingLibrary_def
          run1[unfolded warmingLibrary_def])
  have "keyFrames_st warmingLibrary (replicate 8192 0) 8192 0 (replicate 12 (Fin 0), 0) ?m1
        = keyFrames_st warmingLibrary (replicate 8192 0) 8192 8192 (acc, Suc 0) ?m2"
    by (subst keyFrames_st.simps) (simp add: slice_def warmingLibrary_def acc_def del: upt_Suc)
  also have "\<dots> = ((acc, Suc 0), ?m2)"
    by (subst keyFrames_st.simps) simp
  finally have run2:
    "keyFrames_st warmingLibrary (replicate 8192 0) 8192 0 (replicate 12 (Fin 0), 0) ?m1
     = ((acc, Suc 0), ?m2)" .
  let ?s1 = "freshStore\<lparr>cells := (cells freshStore)(nextFree freshStore := Some (Numbers
                 (map (\<lambda>val. Some (js_div val (Fin 1))) acc))),
               nextFree := Suc (nextFree freshStore)\<rparr>"
  have al: "alloc (Numbers (map (\<lambda>val. Some (js_div val (Fin 1))) acc)) freshStore
            = (nextFree freshStore, ?s1)"
    by (simp add: alloc_def)
  have init: "serviceFields theService freshStore"
    by (simp add: serviceFields_def theService_def freshStore_def)
  have keep1: "keepsAllocated freshStore ?s1" by (simp add: keepsAllocated_def)
  have init1: "serviceFields theService ?s1"
    by (rule keepsAllocated_serviceFields[OF keep1 init])
  have avg: "map (\<lambda>val. Some (js_div val (Fin 1))) acc = map Some MAJOR_PROFILE"
    by (simp add: acc_def upt_12 num_at_def js_get_def MAJOR_PROFILE_def)
  have a1: "cells ?s1 (nextFree freshStore) = Some (Numbers (map Some MAJOR_PROFILE))"
    unfolding avg by simp
  have lt1: "nextFree freshStore < nextFree ?s1" by simp
  obtain key s2 where sel: "selectKey_st theService (nextFree freshStore) ?s1 = (key, s2)"
    by (cases "selectKey_st theService (nextFree freshStore) ?s1")
  have "fst (selectKey_st theService (nextFree freshStore) ?s1) = selectKey MAJOR_PROFILE \<and>
        keepsAllocated ?s1 (snd (selectKey_st theService (nextFree freshStore) ?s1))"
    by (rule selectKey_st_refine[OF init1 a1 lt1])
  then have k: "key = ''C Major''"
    unfolding sel fst_conv selectKey_major_profile by blast
  have second: "detectKey_st warmingLibrary theService oneFrame (freshStore, ?m1) = (key, s2, ?m2)"
    unfolding detectKey_st_def Let_def prod.case
    by (simp add: oneFrame_def duration_def buf_length_def warmingLibrary_def
          run2[unfolded warmingLibrary_def] al sel)
  show ?thesis
    unfolding first snd_conv second fst_conv k using not by simp
qed

text \<open>
  Claim C9: calling either estimator twice on one buffer yields the same result both
  times, and no state of the service that a call mutates can change a later result.
  The methods run on a store of arrays and on a library with a state of its own. With
  a library that is stateless per call, as the specification assumes, and a service
  whose fields hold their initial arrays: a second call of either method, made in the
  state the first call left, returns what the first returned; so does a call made in
  any other state in which the fields hold their initial arrays, whatever the library's
  state; detectKey leaves every array that was allocated before the call as it was, the
  three fields among them, and only allocates new ones; detectTuningReference does not
  touch the store; and the results are those of the functions of the buffer, the
  library's features and the audio context alone, of the first model.
\<close>

theorem estimators_deterministic:
  assumes lib: "statelessPerCall lib"
    and init: "serviceFields this s"
    and other: "serviceFields this s'"
  shows "fst (detectKey_st lib this b (snd (detectKey_st lib this b (s, m))))
           = fst (detectKey_st lib this b (s, m)) \<and>
         fst (detectTuningReference_st lib this b (snd (detectTuningReference_st lib this b (s, m))))
           = fst (detectTuningReference_st lib this b (s, m)) \<and>
         fst (detectKey_st lib this b (s', m')) = fst (detectKey_st lib this b (s, m)) \<and>
         fst (detectTuningReference_st lib this b (s', m'))
           = fst (detectTuningReference_st lib this b (s, m)) \<and>
         serviceFields this (fst (snd (detectKey_st lib this b (s, m)))) \<and>
         keepsAllocated s (fst (snd (detectKey_st lib this b (s, m)))) \<and>
         fst (snd (detectTuningReference_st lib this b (s, m))) = s \<and>
         fst (detectKey_st lib this b (s, m)) = fst (detectKey (environmentOf lib h) b g) \<and>
         fst (detectTuningReference_st lib this b (s, m))
           = fst (detectTuningReference (environmentOf lib h) b g)"
proof -
  have key: "fst (detectKey_st lib this b (t, n)) = fst (detectKey (environmentOf lib h) b g)"
    if "serviceFields this t" for t n
    using detectKey_st_refine(1)[OF lib that] .
  have tuning: "fst (detectTuningReference_st lib this b (t, n))
                = fst (detectTuningReference (environmentOf lib h) b g)" for t n
    using detectTuningReference_st_refine(1)[OF lib] .
  have keep: "keepsAllocated s (fst (snd (detectKey_st lib this b (s, m))))"
    using detectKey_st_refine(2)[OF lib init] .
  have fields: "serviceFields this (fst (snd (detectKey_st lib this b (s, m))))"
    using keepsAllocated_serviceFields[OF keep init] .
  have same: "fst (snd (detectTuningReference_st lib this b (s, m))) = s"
    using detectTuningReference_st_refine(2)[OF lib] .
  obtain s1 m1 where k1: "snd (detectKey_st lib this b (s, m)) = (s1, m1)"
    by (cases "snd (detectKey_st lib this b (s, m))")
  have f1: "serviceFields this s1" using fields by (simp add: k1)
  obtain t1 n1 where t1: "snd (detectTuningReference_st lib this b (s, m)) = (t1, n1)"
    by (cases "snd (detectTuningReference_st lib this b (s, m))")
  have keep1: "keepsAllocated s s1" using keep by (simp add: k1)
  have same1: "t1 = s" using same by (simp add: t1)
  show ?thesis
    unfolding k1 t1 key[OF f1] key[OF init] key[OF other] tuning
    using f1 keep1 same1 by simp
qed

theorem estimators_deterministic_witness:
  "statelessPerCall countingLibrary \<and> serviceFields theService freshStore \<and>
   fst (detectKey_st countingLibrary theService oneFrame (freshStore, idle)) = ''C Major'' \<and>
   hidden (snd (snd (detectKey_st countingLibrary theService oneFrame (freshStore, idle)))) = 1 \<and>
   nextFree (fst (snd (detectKey_st countingLibrary theService oneFrame (freshStore, idle)))) = 28 \<and>
   snd (detectKey_st countingLibrary theService oneFrame (freshStore, idle)) \<noteq> (freshStore, idle) \<and>
   fst (detectKey_st countingLibrary theService oneFrame
          (snd (detectKey_st countingLibrary theService oneFrame (freshStore, idle)))) = ''C Major'' \<and>
   fst (detectTuningReference_st countingLibrary theService oneFrame
          (snd (detectTuningReference_st countingLibrary theService oneFrame (freshStore, idle))))
     = fst (detectTuningReference_st countingLibrary theService oneFrame (freshStore, idle)) \<and>
   serviceFields theService
     (fst (snd (detectKey_st countingLibrary theService oneFrame (freshStore, idle)))) \<and>
   fst (snd (detectTuningReference_st countingLibrary theService oneFrame (freshStore, idle)))
     = freshStore"
proof -
  have lib: "statelessPerCall countingLibrary"
    by (simp add: statelessPerCall_def countingLibrary_def)
  have init: "serviceFields theService freshStore"
    by (simp add: serviceFields_def theService_def freshStore_def)
  note det = estimators_deterministic[OF lib init init,
      of oneFrame idle idle 0 "\<lparr>audioContext = None\<rparr>"]
  have calls: "hidden (snd (snd (detectKey_st countingLibrary theService oneFrame (freshStore, idle)))) = 1"
    using countingLibrary_detectKey_effects(1)[OF init, of idle] by (simp add: idle_def)
  have arrays: "nextFree (fst (snd (detectKey_st countingLibrary theService oneFrame (freshStore, idle)))) = 28"
    using countingLibrary_detectKey_effects(2)[OF init, of idle] by (simp add: freshStore_def)
  have changed: "snd (detectKey_st countingLibrary theService oneFrame (freshStore, idle))
                 \<noteq> (freshStore, idle)"
  proof
    assume "snd (detectKey_st countingLibrary theService oneFrame (freshStore, idle)) = (freshStore, idle)"
    with calls show False by (simp add: idle_def)
  qed
  from det lib init calls arrays changed show ?thesis
    by (simp add: countingLibrary_key)
qed

end
